theory Spec2Isabelle
  imports Main "HOL-Library.Sublist"
begin

section \<open>Characters and strings of the page text\<close>

text \<open>
  The extractor works on Python \<open>str\<close> values. A page text is modelled as a
  \<^typ>\<open>string\<close>; each \<^typ>\<open>char\<close> stands for the code point of the same number
  (0 to 255), and the character classes below are the ones Python 3 uses on these code
  points: \<open>str.isspace\<close> for \<open>strip()\<close> and \<open>\s\<close>, alphanumerics and the
  underscore for \<open>\w\<close>, the decimal digits for \<open>\d\<close>, and \<open>str.lower\<close>.
\<close>

abbreviation NL :: char where "NL \<equiv> CHR 0x0A"

definition is_space :: "char \<Rightarrow> bool" where
  "is_space c =
     (let n = (of_char c :: nat)
      in (9 \<le> n \<and> n \<le> 13) \<or> (28 \<le> n \<and> n \<le> 32) \<or> n = 133 \<or> n = 160)"

definition is_digit :: "char \<Rightarrow> bool" where
  "is_digit c = (let n = (of_char c :: nat) in 48 \<le> n \<and> n \<le> 57)"

definition is_upper_AZ :: "char \<Rightarrow> bool" where
  "is_upper_AZ c = (let n = (of_char c :: nat) in 65 \<le> n \<and> n \<le> 90)"

definition is_word :: "char \<Rightarrow> bool" where
  "is_word c =
     (let n = (of_char c :: nat)
      in (48 \<le> n \<and> n \<le> 57) \<or> (65 \<le> n \<and> n \<le> 90) \<or> n = 95 \<or> (97 \<le> n \<and> n \<le> 122)
         \<or> n = 170 \<or> n = 178 \<or> n = 179 \<or> n = 181 \<or> n = 185 \<or> n = 186
         \<or> n = 188 \<or> n = 189 \<or> n = 190
         \<or> (192 \<le> n \<and> n \<le> 214) \<or> (216 \<le> n \<and> n \<le> 246) \<or> 248 \<le> n)"

definition lower_char :: "char \<Rightarrow> char" where
  "lower_char c =
     (let n = (of_char c :: nat)
      in if (65 \<le> n \<and> n \<le> 90) \<or> (192 \<le> n \<and> n \<le> 214) \<or> (216 \<le> n \<and> n \<le> 222)
         then char_of (n + 32) else c)"

definition lower :: "string \<Rightarrow> string" where
  "lower s = map lower_char s"

definition strip :: "string \<Rightarrow> string" where
  "strip s = rev (dropWhile is_space (rev (dropWhile is_space s)))"

fun startswith :: "string \<Rightarrow> string \<Rightarrow> bool" where
  "startswith s [] = True"
| "startswith [] (p # ps) = False"
| "startswith (c # cs) (p # ps) = (c = p \<and> startswith cs ps)"

text \<open>\<open>sub in s\<close>: the substring test.\<close>

fun contains :: "string \<Rightarrow> string \<Rightarrow> bool" where
  "contains [] sub = (sub = [])"
| "contains (c # cs) sub = (startswith (c # cs) sub \<or> contains cs sub)"

text \<open>\<open>text.split('\n')\<close>: the pieces between newlines, empty pieces kept.\<close>

fun split_nl :: "string \<Rightarrow> string list" where
  "split_nl [] = [[]]"
| "split_nl (c # cs) =
     (if c = NL then [] # split_nl cs
      else (case split_nl cs of [] \<Rightarrow> [[c]] | l # ls \<Rightarrow> (c # l) # ls))"

text \<open>\<open>' '.join(xs)\<close>.\<close>

fun join_sp :: "string list \<Rightarrow> string" where
  "join_sp [] = []"
| "join_sp [x] = x"
| "join_sp (x # y # ys) = x @ '' '' @ join_sp (y # ys)"

text \<open>\<open>[line.strip() for line in lines if line.strip()]\<close>.\<close>

definition page_lines :: "string \<Rightarrow> string list" where
  "page_lines text = map strip (filter (\<lambda>line. strip line \<noteq> []) (split_nl text))"

section \<open>Regular expressions with backtracking\<close>

text \<open>
  The patterns of the extractor use literals, character classes, the greedy repetitions
  \<open>*\<close> and \<open>+\<close> and the lazy \<open>*?\<close> of a character class, one capturing group,
  alternation, \<open>$\<close> and a lookahead. \<open>rmatch\<close> lists the ways a pattern matches at the
  start of a string, in the order in which a backtracking matcher tries them; a way is
  the text left after the match and the content of group 1.
\<close>

datatype cclass =
    Word                  \<comment> \<open>\<open>\w\<close>\<close>
  | Digit                 \<comment> \<open>\<open>\d\<close>\<close>
  | Space                 \<comment> \<open>\<open>\s\<close>\<close>
  | UpperAZ               \<comment> \<open>\<open>[A-Z]\<close>\<close>
  | OneOf string          \<comment> \<open>\<open>[AP]\<close>\<close>
  | NotNL                 \<comment> \<open>\<open>.\<close> and \<open>[^\n]\<close>\<close>
  | AnyChar               \<comment> \<open>\<open>.\<close> under \<open>re.DOTALL\<close>\<close>

fun cls_mem :: "cclass \<Rightarrow> char \<Rightarrow> bool" where
  "cls_mem Word c = is_word c"
| "cls_mem Digit c = is_digit c"
| "cls_mem Space c = is_space c"
| "cls_mem UpperAZ c = is_upper_AZ c"
| "cls_mem (OneOf cs) c = (c \<in> set cs)"
| "cls_mem NotNL c = (c \<noteq> NL)"
| "cls_mem AnyChar c = True"

datatype regex =
    Lit string
  | Cls cclass
  | Star cclass           \<comment> \<open>greedy \<open>*\<close>\<close>
  | Plus cclass           \<comment> \<open>greedy \<open>+\<close>\<close>
  | LazyStar cclass       \<comment> \<open>\<open>*?\<close>\<close>
  | Seq regex regex
  | Alt regex regex
  | Group regex           \<comment> \<open>capturing group 1\<close>
  | Eos                   \<comment> \<open>\<open>$\<close> without \<open>re.MULTILINE\<close>\<close>
  | Lookahead regex       \<comment> \<open>\<open>(?=...)\<close>\<close>

text \<open>The strings left after a greedy repetition: the longest run first.\<close>

fun greedy_tails :: "cclass \<Rightarrow> string \<Rightarrow> string list" where
  "greedy_tails k [] = [[]]"
| "greedy_tails k (c # cs) = (if cls_mem k c then greedy_tails k cs @ [c # cs] else [c # cs])"

text \<open>The strings left after a lazy repetition: the shortest run first.\<close>

fun lazy_tails :: "cclass \<Rightarrow> string \<Rightarrow> string list" where
  "lazy_tails k [] = [[]]"
| "lazy_tails k (c # cs) = (c # cs) # (if cls_mem k c then lazy_tails k cs else [])"

type_synonym mstate = "string \<times> string option"

fun rmatch :: "regex \<Rightarrow> mstate \<Rightarrow> mstate list" where
  "rmatch (Lit l) (s, g) = (if startswith s l then [(drop (length l) s, g)] else [])"
| "rmatch (Cls k) (s, g) =
     (case s of [] \<Rightarrow> [] | c # cs \<Rightarrow> if cls_mem k c then [(cs, g)] else [])"
| "rmatch (Star k) (s, g) = map (\<lambda>t. (t, g)) (greedy_tails k s)"
| "rmatch (Plus k) (s, g) =
     (case s of [] \<Rightarrow> []
      | c # cs \<Rightarrow> if cls_mem k c then map (\<lambda>t. (t, g)) (greedy_tails k cs) else [])"
| "rmatch (LazyStar k) (s, g) = map (\<lambda>t. (t, g)) (lazy_tails k s)"
| "rmatch (Seq a b) st = concat (map (rmatch b) (rmatch a st))"
| "rmatch (Alt a b) st = rmatch a st @ rmatch b st"
| "rmatch (Group r) (s, g) =
     map (\<lambda>(t, _). (t, Some (take (length s - length t) s))) (rmatch r (s, g))"
| "rmatch Eos (s, g) = (if s = [] \<or> s = [NL] then [(s, g)] else [])"
| "rmatch (Lookahead r) (s, g) = (if rmatch r (s, g) = [] then [] else [(s, g)])"

text \<open>
  \<open>re.search\<close>: the first way of matching at the leftmost position that has one.
  The result is the text from the start of the match, the text after the match and
  group 1.
\<close>

fun search :: "regex \<Rightarrow> string \<Rightarrow> (string \<times> string \<times> string option) option" where
  "search r [] =
     (case rmatch r ([], None) of [] \<Rightarrow> None | (t, g) # _ \<Rightarrow> Some ([], t, g))"
| "search r (c # cs) =
     (case rmatch r (c # cs, None) of
        [] \<Rightarrow> search r cs
      | (t, g) # _ \<Rightarrow> Some (c # cs, t, g))"

fun seqs :: "regex list \<Rightarrow> regex" where
  "seqs [] = Lit []"
| "seqs [r] = r"
| "seqs (r # rs) = Seq r (seqs rs)"

text \<open>\<open>Contribution ID:\s*(\d+)\<close>\<close>

definition id_re :: regex where
  "id_re = seqs [Lit ''Contribution ID:'', Star Space, Group (Plus Digit)]"

text \<open>\<open>Contribution code:\s*([A-Z]+\d+)\<close>\<close>

definition code_re :: regex where
  "code_re = seqs [Lit ''Contribution code:'', Star Space, Group (Seq (Plus UpperAZ) (Plus Digit))]"

text \<open>\<open>Type:\s*([^\n]+)\<close>\<close>

definition type_re :: regex where
  "type_re = seqs [Lit ''Type:'', Star Space, Group (Plus NotNL)]"

text \<open>\<open>\w+day, \w+ \d+, \d{4}\<close>\<close>

definition date_line_re :: regex where
  "date_line_re =
     seqs [Plus Word, Lit ''day, '', Plus Word, Lit '' '', Plus Digit, Lit '', '',
           Cls Digit, Cls Digit, Cls Digit, Cls Digit]"

text \<open>\<open>(\w+day, \w+ \d+, \d{4} \d+:\d+\s*[AP]M.*?)(?:\(|$)\<close>\<close>

definition datetime_re :: regex where
  "datetime_re =
     Seq (Group (seqs [Plus Word, Lit ''day, '', Plus Word, Lit '' '', Plus Digit, Lit '', '',
                       Cls Digit, Cls Digit, Cls Digit, Cls Digit, Lit '' '',
                       Plus Digit, Lit '':'', Plus Digit, Star Space, Cls (OneOf ''AP''),
                       Lit ''M'', LazyStar NotNL]))
         (Alt (Lit ''('') Eos)"

text \<open>\<open>Footnotes(.*?)(?=Contribution|$)\<close> with \<open>re.DOTALL\<close>\<close>

definition footnotes_re :: regex where
  "footnotes_re =
     seqs [Lit ''Footnotes'', Group (LazyStar AnyChar),
           Lookahead (Alt (Lit ''Contribution'') Eos)]"

section \<open>The session classifier\<close>

text \<open>The dictionary literal of \<open>get_session_name\<close>, in the order of the source.\<close>

definition session_map :: "(string \<times> string) list" where
  "session_map =
    [(''MOA'', ''Monday Opening and Awards''),
     (''MOB'', ''Monday Oral Session B''),
     (''MOC'', ''Monday Oral Session C''),
     (''MOD'', ''Monday Oral Session D''),
     (''MOE'', ''Monday Oral Session E''),
     (''MOF'', ''Monday Oral Session F''),
     (''MOG'', ''Monday Oral Session G''),
     (''MOH'', ''Monday Oral Session H''),
     (''MOI'', ''Monday Oral Session I''),
     (''MOJ'', ''Monday Oral Session J''),
     (''MOK'', ''Monday Oral Session K''),
     (''MOL'', ''Monday Oral Session L''),
     (''MOM'', ''Monday Oral Session M''),
     (''MON'', ''Monday Oral Session N''),
     (''MOO'', ''Monday Oral Session O''),
     (''MOP'', ''Monday Poster Session''),
     (''TUA'', ''Tuesday Oral Session A''),
     (''TUB'', ''Tuesday Oral Session B''),
     (''TUC'', ''Tuesday Oral Session C''),
     (''TUD'', ''Tuesday Oral Session D''),
     (''TUE'', ''Tuesday Oral Session E''),
     (''TUF'', ''Tuesday Oral Session F''),
     (''TUG'', ''Tuesday Oral Session G''),
     (''TUH'', ''Tuesday Oral Session H''),
     (''TUI'', ''Tuesday Oral Session I''),
     (''TUJ'', ''Tuesday Oral Session J''),
     (''TUK'', ''Tuesday Oral Session K''),
     (''TUL'', ''Tuesday Oral Session L''),
     (''TUM'', ''Tuesday Oral Session M''),
     (''TUN'', ''Tuesday Oral Session N''),
     (''TUO'', ''Tuesday Oral Session O''),
     (''TUP'', ''Tuesday Poster Session''),
     (''WEA'', ''Wednesday Oral Session A''),
     (''WEB'', ''Wednesday Oral Session B''),
     (''WEC'', ''Wednesday Oral Session C''),
     (''WED'', ''Wednesday Oral Session D''),
     (''WEE'', ''Wednesday Oral Session E''),
     (''WEF'', ''Wednesday Oral Session F''),
     (''WEG'', ''Wednesday Oral Session G''),
     (''WEH'', ''Wednesday Oral Session H''),
     (''WEI'', ''Wednesday Oral Session I''),
     (''WEJ'', ''Wednesday Oral Session J''),
     (''WEK'', ''Wednesday Oral Session K''),
     (''WEL'', ''Wednesday Oral Session L''),
     (''WEM'', ''Wednesday Oral Session M''),
     (''WEN'', ''Wednesday Oral Session N''),
     (''WEO'', ''Wednesday Oral Session O''),
     (''WEP'', ''Wednesday Poster Session''),
     (''THA'', ''Thursday Oral Session A''),
     (''THB'', ''Thursday Oral Session B''),
     (''THC'', ''Thursday Oral Session C''),
     (''THD'', ''Thursday Oral Session D''),
     (''THE'', ''Thursday Oral Session E''),
     (''THF'', ''Thursday Oral Session F''),
     (''THG'', ''Thursday Oral Session G''),
     (''THH'', ''Thursday Oral Session H''),
     (''THI'', ''Thursday Oral Session I''),
     (''THJ'', ''Thursday Oral Session J''),
     (''THK'', ''Thursday Oral Session K''),
     (''THL'', ''Thursday Oral Session L''),
     (''THM'', ''Thursday Oral Session M''),
     (''THN'', ''Thursday Oral Session N''),
     (''THO'', ''Thursday Oral Session O''),
     (''THP'', ''Thursday Poster Session''),
     (''FRA'', ''Friday Oral Session A''),
     (''FRB'', ''Friday Oral Session B''),
     (''FRC'', ''Friday Oral Session C''),
     (''FRD'', ''Friday Oral Session D''),
     (''FRE'', ''Friday Oral Session E''),
     (''FRF'', ''Friday Oral Session F''),
     (''FRG'', ''Friday Oral Session G''),
     (''FRH'', ''Friday Oral Session H''),
     (''FRI'', ''Friday Oral Session I''),
     (''FRJ'', ''Friday Oral Session J''),
     (''FRK'', ''Friday Oral Session K''),
     (''FRL'', ''Friday Oral Session L''),
     (''FRM'', ''Friday Oral Session M''),
     (''FRN'', ''Friday Oral Session N''),
     (''FRO'', ''Friday Oral Session O''),
     (''FRP'', ''Friday Poster Session'')]"

text \<open>\<open>session_map.get(session_code, f"Session {session_code}")\<close>\<close>

definition get_session_name :: "string \<Rightarrow> string" where
  "get_session_name session_code =
     (case map_of session_map session_code of
        Some name \<Rightarrow> name
      | None \<Rightarrow> ''Session '' @ session_code)"

section \<open>The page record parser\<close>

record contribution =
  contribution_id :: string
  contribution_code :: string
  type :: string
  title :: string
  date_time :: string
  abstract :: string
  footnotes :: string
  session :: string
  session_code :: string
  page_number :: int

text \<open>
  \<open>m.group(1)\<close> of a match found by \<open>search\<close>. In the patterns of the parser the
  group takes part in every match (\<open>search_group_defined\<close> below).
\<close>

definition group1 :: "string \<times> string \<times> string option \<Rightarrow> string" where
  "group1 m = (case snd (snd m) of Some g \<Rightarrow> g | None \<Rightarrow> [])"

subsection \<open>The title and abstract scan\<close>

definition skip_markers :: "string list" where
  "skip_markers =
     [''contribution id:'', ''contribution code:'', ''type:'', ''srf2025'',
      ''report of contributions'']"

text \<open>\<open>any(skip in line.lower() for skip in [...])\<close>\<close>

definition is_header :: "string \<Rightarrow> bool" where
  "is_header line = list_ex (\<lambda>skip. contains (lower line) skip) skip_markers"

text \<open>\<open>re.search(r'\w+day, \w+ \d+, \d{4}', line)\<close>\<close>

definition is_date_line :: "string \<Rightarrow> bool" where
  "is_date_line line = (search date_line_re line \<noteq> None)"

text \<open>\<open>line.lower().startswith(('footnotes', 'funding'))\<close>\<close>

definition is_stop_line :: "string \<Rightarrow> bool" where
  "is_stop_line line =
     (startswith (lower line) ''footnotes'' \<or> startswith (lower line) ''funding'')"

record scan_state =
  st_title :: string
  title_found :: bool
  abstract_start :: bool
  abstract_lines :: "string list"

definition scan_init :: scan_state where
  "scan_init =
     \<lparr>st_title = [], title_found = False, abstract_start = False, abstract_lines = []\<rparr>"

text \<open>
  The body of the \<open>for\<close> loop over the lines, on one line: it ends with \<open>continue\<close>
  (or by reaching its end) or with \<open>break\<close>.
\<close>

datatype 'a step = Continue 'a | Break 'a

definition scan_line :: "string \<Rightarrow> scan_state \<Rightarrow> scan_state step" where
  "scan_line line st =
     (if is_header line then Continue st
      else if is_date_line line then Continue st
      else if \<not> title_found st \<and> length line > 10 \<and> \<not> startswith line ''http''
        then Continue (st\<lparr>st_title := line, title_found := True\<rparr>)
      else if title_found st \<and> \<not> abstract_start st then
        (if is_stop_line line then Break st
         else if length line > 20
           then Continue (st\<lparr>abstract_lines := abstract_lines st @ [line],
                              abstract_start := True\<rparr>)
         else if abstract_start st \<and> length line > 5
           then Continue (st\<lparr>abstract_lines := abstract_lines st @ [line]\<rparr>)
         else Continue st)
      else Continue st)"

fun scan :: "string list \<Rightarrow> scan_state \<Rightarrow> scan_state" where
  "scan [] st = st"
| "scan (line # rest) st =
     (case scan_line line st of
        Continue st' \<Rightarrow> scan rest st'
      | Break st' \<Rightarrow> st')"

subsection \<open>The fields found by a search over the whole text\<close>

definition find_id :: "string \<Rightarrow> string" where
  "find_id text = (case search id_re text of None \<Rightarrow> [] | Some m \<Rightarrow> group1 m)"

definition find_code :: "string \<Rightarrow> string" where
  "find_code text = (case search code_re text of None \<Rightarrow> [] | Some m \<Rightarrow> group1 m)"

definition find_type :: "string \<Rightarrow> string" where
  "find_type text = (case search type_re text of None \<Rightarrow> [] | Some m \<Rightarrow> strip (group1 m))"

definition find_date_time :: "string \<Rightarrow> string" where
  "find_date_time text =
     (case search datetime_re text of None \<Rightarrow> [] | Some m \<Rightarrow> strip (group1 m))"

definition find_footnotes :: "string \<Rightarrow> string" where
  "find_footnotes text =
     (case search footnotes_re text of None \<Rightarrow> [] | Some m \<Rightarrow> strip (group1 m))"

subsection \<open>\<open>parse_contribution_page\<close>\<close>

datatype exn = Exception string

text \<open>
  The \<open>try\<close> block. The operations in it are searches, string methods and assignments
  to the dictionary, none of which raises on a \<open>str\<close>, so the block always ends with a
  dictionary; the handler of the block is in \<open>parse_contribution_page\<close>.
\<close>

definition parse_body :: "string \<Rightarrow> int \<Rightarrow> exn + contribution" where
  "parse_body text page_num =
     (let c0 = \<lparr>contribution_id = [], contribution_code = [], type = [], title = [],
                 date_time = [], abstract = [], footnotes = [], session = [],
                 session_code = [], page_number = page_num\<rparr>;
          lines = page_lines text;
          c1 = c0\<lparr>contribution_id := find_id text\<rparr>;
          c2 = (case search code_re text of
                  None \<Rightarrow> c1
                | Some m \<Rightarrow>
                    (let c = c1\<lparr>contribution_code := group1 m\<rparr>
                     in if length (contribution_code c) \<ge> 3
                        then (let sc = take 3 (contribution_code c)
                              in c\<lparr>session_code := sc, session := get_session_name sc\<rparr>)
                        else c));
          c3 = c2\<lparr>type := find_type text\<rparr>;
          c4 = c3\<lparr>date_time := find_date_time text\<rparr>;
          st = scan lines scan_init;
          c5 = c4\<lparr>title := st_title st\<rparr>;
          c6 = (if abstract_lines st \<noteq> [] then c5\<lparr>abstract := join_sp (abstract_lines st)\<rparr>
                else c5);
          c7 = c6\<lparr>footnotes := find_footnotes text\<rparr>
      in Inr c7)"

datatype log_entry =
    InfoOpening
  | InfoPages nat
  | InfoExtracted string string
  | ErrorProcessingPage int exn
  | ErrorParsingPage int exn
  | ErrorOpening exn
  | InfoDone nat

text \<open>
  What follows the \<open>try\<close> block: the handler logs and returns \<open>None\<close>; otherwise the
  dictionary is returned when it has a code and a title.
\<close>

definition finish_parse :: "exn + contribution \<Rightarrow> int \<Rightarrow> contribution option \<times> log_entry list" where
  "finish_parse outcome page_num =
     (case outcome of
        Inl e \<Rightarrow> (None, [ErrorParsingPage page_num e])
      | Inr c \<Rightarrow> (if contribution_code c \<noteq> [] \<and> title c \<noteq> [] then Some c else None, []))"

definition parse_contribution_page :: "string \<Rightarrow> int \<Rightarrow> contribution option \<times> log_entry list" where
  "parse_contribution_page text page_num = finish_parse (parse_body text page_num) page_num"

definition parse :: "string \<Rightarrow> int \<Rightarrow> contribution option" where
  "parse text page_num = fst (parse_contribution_page text page_num)"

section \<open>The loop over the pages\<close>

record extractor =
  contributions :: "contribution list"
  log :: "log_entry list"

text \<open>
  One round of the loop. The page source gives the text of the page, or the exception
  that reading the page raised.
\<close>

definition process_page :: "extractor \<Rightarrow> nat \<times> (exn + string) \<Rightarrow> extractor" where
  "process_page self p =
     (case p of (page_num, src) \<Rightarrow>
        (case src of
           Inl e \<Rightarrow> self\<lparr>log := log self @ [ErrorProcessingPage (int page_num + 1) e]\<rparr>
         | Inr text \<Rightarrow>
             if strip text \<noteq> [] then
               (case parse_contribution_page text (int page_num + 1) of
                  (None, lg) \<Rightarrow> self\<lparr>log := log self @ lg\<rparr>
                | (Some c, lg) \<Rightarrow>
                    self\<lparr>contributions := contributions self @ [c],
                         log := log self @ lg
                                @ [InfoExtracted (contribution_code c) (take 50 (title c))]\<rparr>)
             else self))"

text \<open>\<open>range(1, total_pages)\<close> with the page of each index.\<close>

definition numbered_pages :: "(exn + string) list \<Rightarrow> (nat \<times> (exn + string)) list" where
  "numbered_pages pages = map (\<lambda>i. (i, pages ! i)) [1..<length pages]"

definition extract_contributions ::
  "extractor \<Rightarrow> exn + (exn + string) list \<Rightarrow> contribution list \<times> extractor" where
  "extract_contributions self pdf =
     (let self0 = self\<lparr>log := log self @ [InfoOpening]\<rparr>
      in case pdf of
           Inl e \<Rightarrow> ([], self0\<lparr>log := log self0 @ [ErrorOpening e]\<rparr>)
         | Inr pages \<Rightarrow>
             (let self1 = self0\<lparr>log := log self0 @ [InfoPages (length pages)]\<rparr>;
                  self2 = foldl process_page self1 (numbered_pages pages)
              in (contributions self2,
                  self2\<lparr>log := log self2 @ [InfoDone (length (contributions self2))]\<rparr>)))"

text \<open>Lines joined with newlines, for writing page texts.\<close>

fun join_nl :: "string list \<Rightarrow> string" where
  "join_nl [] = []"
| "join_nl [x] = x"
| "join_nl (x # y # ys) = x @ [NL] @ join_nl (y # ys)"

section \<open>Notions used to state the properties\<close>

text \<open>The record that the \<open>try\<close> block of \<open>parse_contribution_page\<close> builds.\<close>

definition page_record :: "string \<Rightarrow> int \<Rightarrow> contribution" where
  "page_record text page_num = (case parse_body text page_num of Inr c \<Rightarrow> c)"

text \<open>The title that the scan of the lines sets.\<close>

definition find_title :: "string \<Rightarrow> string" where
  "find_title text = st_title (scan (page_lines text) scan_init)"

text \<open>
  A line that qualifies as a title: no header marker in it, no weekday and date in it,
  more than 10 characters, and not starting with "http".
\<close>

definition title_candidate :: "string \<Rightarrow> bool" where
  "title_candidate line \<longleftrightarrow>
     \<not> is_header line \<and> \<not> is_date_line line \<and> length line > 10 \<and> \<not> startswith line ''http''"

definition title_spec :: "string list \<Rightarrow> string" where
  "title_spec ls = (case find title_candidate ls of None \<Rightarrow> [] | Some l \<Rightarrow> l)"

text \<open>The lines after the title line.\<close>

definition lines_after_title :: "string list \<Rightarrow> string list" where
  "lines_after_title ls = drop 1 (dropWhile (\<lambda>l. \<not> title_candidate l) ls)"

text \<open>A line that is not skipped as a header or date line.\<close>

definition reaches_abstract :: "string \<Rightarrow> bool" where
  "reaches_abstract line \<longleftrightarrow> \<not> is_header line \<and> \<not> is_date_line line"

text \<open>
  Among the lines that are not skipped and come before a line starting with "footnotes"
  or "funding", the first one longer than 20 characters.
\<close>

definition first_abstract_line :: "string list \<Rightarrow> string option" where
  "first_abstract_line ls =
     find (\<lambda>l. length l > 20)
       (takeWhile (\<lambda>l. \<not> is_stop_line l) (filter reaches_abstract ls))"

definition abstract_spec :: "string list \<Rightarrow> string" where
  "abstract_spec ls =
     (case first_abstract_line (lines_after_title ls) of None \<Rightarrow> [] | Some l \<Rightarrow> l)"

text \<open>The text after the first occurrence of a marker, if there is one.\<close>

fun after_first :: "string \<Rightarrow> string \<Rightarrow> string option" where
  "after_first marker [] = (if marker = [] then Some [] else None)"
| "after_first marker (c # cs) =
     (if startswith (c # cs) marker then Some (drop (length marker) (c # cs))
      else after_first marker cs)"

text \<open>The records that one round of the loop over the pages adds.\<close>

definition page_records :: "nat \<times> (exn + string) \<Rightarrow> contribution list" where
  "page_records p =
     (case p of (page_num, src) \<Rightarrow>
        (case src of
           Inl e \<Rightarrow> []
         | Inr txt \<Rightarrow>
             if strip txt \<noteq> [] then
               (case parse txt (int page_num + 1) of None \<Rightarrow> [] | Some c \<Rightarrow> [c])
             else []))"

text \<open>The text before the first occurrence of a marker, all of it if there is none.\<close>

fun before_first :: "string \<Rightarrow> string \<Rightarrow> string" where
  "before_first marker [] = []"
| "before_first marker (c # cs) =
     (if startswith (c # cs) marker then [] else c # before_first marker cs)"

text \<open>
  The footnotes as the specification words them: the text after the first "Footnotes", up
  to the next "Contribution" or the end of the text, trimmed.
\<close>

definition footnotes_spec :: "string \<Rightarrow> string" where
  "footnotes_spec txt =
     (case after_first ''Footnotes'' txt of
        None \<Rightarrow> []
      | Some rest \<Rightarrow> strip (before_first ''Contribution'' rest))"

text \<open>The shortest prefix of a string after which a condition holds on the rest.\<close>

fun lazy_prefix :: "(string \<Rightarrow> bool) \<Rightarrow> string \<Rightarrow> string" where
  "lazy_prefix ok [] = []"
| "lazy_prefix ok (c # cs) = (if ok (c # cs) then [] else c # lazy_prefix ok cs)"

text \<open>
  The date and time pattern proper, \<open>\w+day, \w+ \d+, \d{4} \d+:\d+\s*[AP]M\<close>: the
  pattern of \<open>datetime_re\<close> without its \<open>.*?\<close> and what follows it.
\<close>

definition date_core_re :: regex where
  "date_core_re =
     seqs [Plus Word, Lit ''day, '', Plus Word, Lit '' '', Plus Digit, Lit '', '',
           Cls Digit, Cls Digit, Cls Digit, Cls Digit, Lit '' '',
           Plus Digit, Lit '':'', Plus Digit, Star Space, Cls (OneOf ''AP''), Lit ''M'']"

text \<open>
  The date and time as the specification words it: the first match of the pattern,
  up to a following "(" when there is one, and to the end of the text when there is none.
\<close>

definition date_time_stated :: "string \<Rightarrow> string" where
  "date_time_stated txt =
     (case search date_core_re txt of
        None \<Rightarrow> []
      | Some (s, t, g) \<Rightarrow> strip (take (length s - length t) s @ before_first ''('' t))"

text \<open>
  The date and time as the specification is amended to word it. A date and time starts at
  a position when the pattern matches there and is followed, after characters of the same
  line that are not "(", by a "(" or by the end of the text (a final newline aside); it
  runs from the start of the pattern up to there.
\<close>

definition line_char :: "char \<Rightarrow> bool" where
  "line_char c \<longleftrightarrow> c \<noteq> NL \<and> c \<noteq> CHR ''(''"

definition date_end :: "string \<Rightarrow> bool" where
  "date_end rest \<longleftrightarrow> startswith rest ''('' \<or> rest = [] \<or> rest = [NL]"

definition date_at :: "string \<Rightarrow> string option" where
  "date_at s =
     (case rmatch date_core_re (s, None) of
        [] \<Rightarrow> None
      | (c, _) # _ \<Rightarrow>
          (let rest = dropWhile line_char c
           in if date_end rest then Some (take (length s - length rest) s) else None))"

text \<open>The date and time at the first position of the text that has one.\<close>

fun first_date :: "string \<Rightarrow> string option" where
  "first_date [] = date_at []"
| "first_date (c # cs) = (case date_at (c # cs) of Some d \<Rightarrow> Some d | None \<Rightarrow> first_date cs)"

definition date_time_spec :: "string \<Rightarrow> string" where
  "date_time_spec txt = (case first_date txt of None \<Rightarrow> [] | Some d \<Rightarrow> strip d)"

text \<open>A pattern that matches in at most one way from any position.\<close>

definition det :: "regex \<Rightarrow> bool" where
  "det r \<longleftrightarrow> (\<forall>st. length (rmatch r st) \<le> 1)"

text \<open>A pattern that cannot start with a character of a given class.\<close>

definition nostart :: "cclass \<Rightarrow> regex \<Rightarrow> bool" where
  "nostart k r \<longleftrightarrow> (\<forall>c cs g. cls_mem k c \<longrightarrow> rmatch r (c # cs, g) = [])"

text \<open>A pattern none of whose parts can consume a given character.\<close>

fun consumes_no :: "char \<Rightarrow> regex \<Rightarrow> bool" where
  "consumes_no ch (Lit l) = (ch \<notin> set l)"
| "consumes_no ch (Cls k) = (\<not> cls_mem k ch)"
| "consumes_no ch (Star k) = (\<not> cls_mem k ch)"
| "consumes_no ch (Plus k) = (\<not> cls_mem k ch)"
| "consumes_no ch (LazyStar k) = (\<not> cls_mem k ch)"
| "consumes_no ch (Seq a b) = (consumes_no ch a \<and> consumes_no ch b)"
| "consumes_no ch (Alt a b) = (consumes_no ch a \<and> consumes_no ch b)"
| "consumes_no ch (Group r) = consumes_no ch r"
| "consumes_no ch Eos = True"
| "consumes_no ch (Lookahead r) = True"

text \<open>A pattern every match of which sets group 1.\<close>

fun sets_group :: "regex \<Rightarrow> bool" where
  "sets_group (Group r) = True"
| "sets_group (Seq a b) = (sets_group a \<or> sets_group b)"
| "sets_group (Alt a b) = (sets_group a \<and> sets_group b)"
| "sets_group r = False"

section \<open>Evaluation of the character classes\<close>

text \<open>
  The classes written on the eight bits of a character (\<open>b0\<close> the lowest), as code
  equations, so that page texts are evaluated without arithmetic on code points.
\<close>

lemma is_space_bits [code]:
  "is_space (Char b0 b1 b2 b3 b4 b5 b6 b7) \<longleftrightarrow>
     (if b7 then (\<not> b6 \<and> (if b5 then (\<not> b4 \<and> (\<not> b3 \<and> (\<not> b2 \<and> (\<not> b1 \<and> \<not> b0)))) else (\<not> b4 \<and> (\<not> b3 \<and> (b2 \<and> (\<not> b1 \<and> b0)))))) else (\<not> b6 \<and> (if b5 then (\<not> b4 \<and> (\<not> b3 \<and> (\<not> b2 \<and> (\<not> b1 \<and> \<not> b0)))) else (if b4 then (b3 \<and> b2) else (b3 \<and> (if b2 then \<not> b1 else (b1 \<or> b0)))))))"
  by (cases b7; cases b6; cases b5; cases b4; cases b3; cases b2; cases b1; cases b0;
      simp add: is_space_def)

lemma is_digit_bits [code]:
  "is_digit (Char b0 b1 b2 b3 b4 b5 b6 b7) \<longleftrightarrow>
     (\<not> b7 \<and> (\<not> b6 \<and> (b5 \<and> (b4 \<and> (\<not> b3 \<or> (\<not> b2 \<and> \<not> b1))))))"
  by (cases b7; cases b6; cases b5; cases b4; cases b3; cases b2; cases b1; cases b0;
      simp add: is_digit_def)

lemma is_upper_AZ_bits [code]:
  "is_upper_AZ (Char b0 b1 b2 b3 b4 b5 b6 b7) \<longleftrightarrow>
     (\<not> b7 \<and> (b6 \<and> (\<not> b5 \<and> (if b4 then (\<not> b3 \<or> (\<not> b2 \<and> (\<not> b1 \<or> \<not> b0))) else (b3 \<or> (b2 \<or> (b1 \<or> b0)))))))"
  by (cases b7; cases b6; cases b5; cases b4; cases b3; cases b2; cases b1; cases b0;
      simp add: is_upper_AZ_def)

lemma is_word_bits [code]:
  "is_word (Char b0 b1 b2 b3 b4 b5 b6 b7) \<longleftrightarrow>
     (if b7 then (if b6 then (if b5 then (\<not> b4 \<or> (b3 \<or> (\<not> b2 \<or> (\<not> b1 \<or> \<not> b0)))) else (\<not> b4 \<or> (b3 \<or> (\<not> b2 \<or> (\<not> b1 \<or> \<not> b0))))) else (b5 \<and> (if b4 then (if b3 then (if b2 then (\<not> b1 \<or> \<not> b0) else (if b1 then \<not> b0 else b0)) else (if b2 then (\<not> b1 \<and> b0) else b1)) else (b3 \<and> (\<not> b2 \<and> (b1 \<and> \<not> b0)))))) else (if b6 then (if b5 then (if b4 then (\<not> b3 \<or> (\<not> b2 \<and> (\<not> b1 \<or> \<not> b0))) else (b3 \<or> (b2 \<or> (b1 \<or> b0)))) else (if b4 then (\<not> b3 \<or> (if b2 then (b1 \<and> b0) else (\<not> b1 \<or> \<not> b0))) else (b3 \<or> (b2 \<or> (b1 \<or> b0))))) else (b5 \<and> (b4 \<and> (\<not> b3 \<or> (\<not> b2 \<and> \<not> b1))))))"
  by (cases b7; cases b6; cases b5; cases b4; cases b3; cases b2; cases b1; cases b0;
      simp add: is_word_def)

lemma lower_char_bits [code]:
  "lower_char (Char b0 b1 b2 b3 b4 b5 b6 b7) =
     (if (if b7 then (b6 \<and> (\<not> b5 \<and> (\<not> b4 \<or> (if b3 then (\<not> b2 \<or> (\<not> b1 \<or> \<not> b0)) else (\<not> b2 \<or> (\<not> b1 \<or> \<not> b0)))))) else (b6 \<and> (\<not> b5 \<and> (if b4 then (\<not> b3 \<or> (\<not> b2 \<and> (\<not> b1 \<or> \<not> b0))) else (b3 \<or> (b2 \<or> (b1 \<or> b0)))))))
      then Char b0 b1 b2 b3 b4 True b6 b7 else Char b0 b1 b2 b3 b4 b5 b6 b7)"
  by (cases b7; cases b6; cases b5; cases b4; cases b3; cases b2; cases b1; cases b0;
      simp add: lower_char_def char_of_def bit_iff_odd)

section \<open>The session classifier\<close>

lemma session_map_distinct: "distinct (map fst session_map)"
  by code_simp

lemma session_map_names_nonempty: "list_all (\<lambda>p. snd p \<noteq> []) session_map"
  by code_simp

lemma get_session_name_nonempty: "get_session_name code \<noteq> []"
proof (cases "map_of session_map code")
  case None
  then show ?thesis by (simp add: get_session_name_def)
next
  case (Some name)
  then have "(code, name) \<in> set session_map" by (rule map_of_SomeD)
  with session_map_names_nonempty have "name \<noteq> []"
    by (auto simp: list_all_iff)
  with Some show ?thesis by (simp add: get_session_name_def)
qed

lemma get_session_name_known:
  "(code, name) \<in> set session_map \<Longrightarrow> get_session_name code = name"
  using session_map_distinct by (simp add: get_session_name_def)

lemma get_session_name_unknown:
  assumes "code \<notin> fst ` set session_map"
  shows "get_session_name code = ''Session '' @ code"
proof -
  from assms have "map_of session_map code = None"
    by (simp add: map_of_eq_None_iff)
  then show ?thesis by (simp add: get_session_name_def)
qed

section \<open>Searching\<close>

lemma search_skip:
  "\<forall>i<length pre. rmatch r (drop i (pre @ s), None) = [] \<Longrightarrow> search r (pre @ s) = search r s"
proof (induction pre)
  case Nil
  then show ?case by simp
next
  case (Cons c pre)
  from Cons.prems have h0: "rmatch r ((c # pre) @ s, None) = []"
    by (metis drop0 length_greater_0_conv list.distinct(1))
  have "\<forall>i<length pre. rmatch r (drop i (pre @ s), None) = []"
  proof (intro allI impI)
    fix i assume "i < length pre"
    then have "Suc i < length (c # pre)" by simp
    with Cons.prems have "rmatch r (drop (Suc i) ((c # pre) @ s), None) = []" by blast
    then show "rmatch r (drop i (pre @ s), None) = []" by simp
  qed
  with Cons.IH have "search r (pre @ s) = search r s" .
  with h0 show ?case by simp
qed

lemma greedy_tails_hd: "\<exists>ts. greedy_tails k s = dropWhile (cls_mem k) s # ts"
proof (induction s)
  case Nil
  then show ?case by simp
next
  case (Cons c s)
  then show ?case by (cases "cls_mem k c") auto
qed

lemma startswith_Nil [simp]: "startswith [] l \<longleftrightarrow> l = []"
  by (cases l) auto

lemma startswith_append: "startswith (l @ s) l"
  by (induction l) auto

lemma startswith_iff: "startswith s l \<longleftrightarrow> (\<exists>t. s = l @ t)"
proof (induction s l rule: startswith.induct)
  case (1 s)
  then show ?case by simp
next
  case (2 p ps)
  then show ?case by simp
next
  case (3 c cs p ps)
  then show ?case by auto
qed

lemma startswith_drop: "startswith s l \<Longrightarrow> l @ drop (length l) s = s"
  by (auto simp: startswith_iff)

lemma search_after_first_None:
  "after_first l s = None \<Longrightarrow> search (Seq (Lit l) r) s = None"
  by (induction s) (auto split: if_splits)

lemma search_after_first_Some:
  "after_first l s = Some t \<Longrightarrow> rmatch r (t, None) = (t', g) # ms \<Longrightarrow>
   \<exists>u. search (Seq (Lit l) r) s = Some (u, t', g)"
proof (induction s)
  case Nil
  then show ?case by (auto split: if_splits)
next
  case (Cons c cs)
  show ?case
  proof (cases "startswith (c # cs) l")
    case True
    with Cons.prems show ?thesis by auto
  next
    case False
    with Cons show ?thesis by auto
  qed
qed

lemma group_take:
  "take (length (u @ post) - length (dropWhile P post)) (u @ post) = u @ takeWhile P post"
proof -
  have "length post = length (takeWhile P post) + length (dropWhile P post)"
    by (metis length_append takeWhile_dropWhile_id)
  then have n: "length (u @ post) - length (dropWhile P post) = length (u @ takeWhile P post)"
    by simp
  have "u @ post = (u @ takeWhile P post) @ dropWhile P post" by simp
  then have "take (length (u @ takeWhile P post)) (u @ post) = u @ takeWhile P post"
    by (metis append_eq_conv_conj)
  with n show ?thesis by simp
qed

lemma code_at_marker:
  "\<exists>ms. rmatch (Seq (Star Space) (Group (Seq (Plus UpperAZ) (Plus Digit))))
           ('' MOA007'' @ post, None)
         = (dropWhile is_digit post, Some (''MOA007'' @ takeWhile is_digit post)) # ms"
proof -
  obtain ts where ts: "greedy_tails Digit post = dropWhile (cls_mem Digit) post # ts"
    using greedy_tails_hd by blast
  have sp: "is_space CHR '' ''" "\<not> is_space CHR ''M''" by code_simp+
  have up: "is_upper_AZ CHR ''M''" "is_upper_AZ CHR ''O''" "is_upper_AZ CHR ''A''"
    "\<not> is_upper_AZ CHR ''0''" "\<not> is_upper_AZ CHR '' ''" by code_simp+
  have dg: "is_digit CHR ''0''" "is_digit CHR ''7''" "\<not> is_digit CHR ''A''" "\<not> is_digit CHR ''O''"
    by code_simp+
  have fn: "cls_mem Digit = is_digit" by (rule ext) simp
  have g: "take (length (''MOA007'' @ post) - length (dropWhile is_digit post)) (''MOA007'' @ post)
     = ''MOA007'' @ takeWhile is_digit post" by (rule group_take)
  show ?thesis
    using g by (simp add: ts sp up dg fn)
qed


lemma find_code_after_label:
  assumes "after_first ''Contribution code:'' s = Some t" and "startswith t '' MOA007''"
  shows "\<exists>d. find_code s = ''MOA007'' @ d"
proof -
  from assms(2) obtain post where t: "t = '' MOA007'' @ post"
    by (auto simp: startswith_iff)
  obtain ms where
    "rmatch (Seq (Star Space) (Group (Seq (Plus UpperAZ) (Plus Digit)))) (t, None)
       = (dropWhile is_digit post, Some (''MOA007'' @ takeWhile is_digit post)) # ms"
    unfolding t using code_at_marker by blast
  with assms(1) obtain u where
    "search (Seq (Lit ''Contribution code:'') (Seq (Star Space) (Group (Seq (Plus UpperAZ) (Plus Digit))))) s
       = Some (u, dropWhile is_digit post, Some (''MOA007'' @ takeWhile is_digit post))"
    using search_after_first_Some by blast
  then have "find_code s = ''MOA007'' @ takeWhile is_digit post"
    by (simp add: find_code_def code_re_def group1_def)
  then show ?thesis by blast
qed

section \<open>The scan of the lines\<close>

lemma scan_title_found:
  "title_found st \<Longrightarrow> st_title (scan ls st) = st_title st"
  by (induction ls arbitrary: st) (auto simp: scan_line_def)

lemma scan_title:
  "\<not> title_found st \<Longrightarrow> st_title st = [] \<Longrightarrow> st_title (scan ls st) = title_spec ls"
proof (induction ls arbitrary: st)
  case Nil
  then show ?case by (simp add: title_spec_def)
next
  case (Cons line rest)
  show ?case
  proof (cases "title_candidate line")
    case True
    with Cons.prems have "scan_line line st = Continue (st\<lparr>st_title := line, title_found := True\<rparr>)"
      by (simp add: scan_line_def title_candidate_def)
    with True show ?thesis
      by (simp add: scan_title_found title_spec_def)
  next
    case False
    with Cons.prems have "scan_line line st = Continue st"
      by (auto simp: scan_line_def title_candidate_def)
    with False Cons show ?thesis
      by (simp add: title_spec_def)
  qed
qed

lemma scan_abstract_started:
  "abstract_start st \<Longrightarrow> abstract_lines (scan ls st) = abstract_lines st"
proof (induction ls arbitrary: st)
  case (Cons line rest)
  then show ?case by (auto simp: scan_line_def)
qed simp

lemma scan_abstract_after_title:
  "title_found st \<Longrightarrow> \<not> abstract_start st \<Longrightarrow>
   abstract_lines (scan ls st) =
     abstract_lines st @ (case first_abstract_line ls of None \<Rightarrow> [] | Some l \<Rightarrow> [l])"
proof (induction ls arbitrary: st)
  case Nil
  then show ?case by (simp add: first_abstract_line_def)
next
  case (Cons line rest)
  show ?case
  proof (cases "reaches_abstract line")
    case False
    then have "scan_line line st = Continue st"
      by (auto simp: scan_line_def reaches_abstract_def)
    with False Cons show ?thesis by (simp add: first_abstract_line_def)
  next
    case True
    note reach = this
    show ?thesis
    proof (cases "is_stop_line line")
      case True
      with reach Cons.prems have "scan_line line st = Break st"
        by (simp add: scan_line_def reaches_abstract_def)
      with True reach show ?thesis by (simp add: first_abstract_line_def)
    next
      case False
      note nostop = this
      show ?thesis
      proof (cases "length line > 20")
        case True
        with reach nostop Cons.prems
        have "scan_line line st =
                Continue (st\<lparr>abstract_lines := abstract_lines st @ [line], abstract_start := True\<rparr>)"
          by (simp add: scan_line_def reaches_abstract_def)
        with True reach nostop show ?thesis
          by (simp add: first_abstract_line_def scan_abstract_started)
      next
        case False
        with reach nostop Cons.prems have "scan_line line st = Continue st"
          by (simp add: scan_line_def reaches_abstract_def)
        with False reach nostop Cons show ?thesis
          by (simp add: first_abstract_line_def)
      qed
    qed
  qed
qed

lemma scan_abstract:
  "\<not> title_found st \<Longrightarrow> \<not> abstract_start st \<Longrightarrow>
   abstract_lines (scan ls st) =
     abstract_lines st @ (case first_abstract_line (lines_after_title ls) of None \<Rightarrow> [] | Some l \<Rightarrow> [l])"
proof (induction ls arbitrary: st)
  case Nil
  then show ?case by (simp add: first_abstract_line_def lines_after_title_def)
next
  case (Cons line rest)
  show ?case
  proof (cases "title_candidate line")
    case True
    with Cons.prems have "scan_line line st = Continue (st\<lparr>st_title := line, title_found := True\<rparr>)"
      by (simp add: scan_line_def title_candidate_def)
    with True Cons.prems show ?thesis
      by (simp add: scan_abstract_after_title lines_after_title_def)
  next
    case False
    with Cons.prems have "scan_line line st = Continue st"
      by (auto simp: scan_line_def title_candidate_def)
    with False Cons show ?thesis
      by (simp add: lines_after_title_def)
  qed
qed

lemma parse_body_record: "parse_body text n = Inr (page_record text n)"
  by (simp add: page_record_def parse_body_def Let_def)

lemma parse_eq:
  "parse text n =
     (if contribution_code (page_record text n) \<noteq> [] \<and> title (page_record text n) \<noteq> []
      then Some (page_record text n) else None)"
  by (simp add: parse_def parse_contribution_page_def finish_parse_def parse_body_record)

lemma page_record_title_spec: "title (page_record text n) = title_spec (page_lines text)"
  by (simp add: page_record_def parse_body_def Let_def scan_title scan_init_def split: option.splits)

lemma page_record_code: "contribution_code (page_record text n) = find_code text"
  by (simp add: page_record_def parse_body_def Let_def find_code_def split: option.splits)

lemma page_record_abstract: "abstract (page_record text n) = abstract_spec (page_lines text)"
  by (simp add: page_record_def parse_body_def Let_def scan_abstract scan_init_def abstract_spec_def
      split: option.splits)


lemma page_record_title: "title (page_record text n) = find_title text"
  by (simp add: page_record_def parse_body_def Let_def find_title_def split: option.splits)

lemma find_title_spec: "find_title text = title_spec (page_lines text)"
  by (simp add: find_title_def scan_title scan_init_def)

lemma page_record_session_code:
  "session_code (page_record text n) =
     (if 3 \<le> length (find_code text) then take 3 (find_code text) else [])"
  by (simp add: page_record_def parse_body_def Let_def find_code_def split: option.splits)

lemma page_record_session:
  "session (page_record text n) =
     (if 3 \<le> length (find_code text) then get_session_name (take 3 (find_code text)) else [])"
  by (simp add: page_record_def parse_body_def Let_def find_code_def split: option.splits)

lemma parse_log_empty: "snd (parse_contribution_page text n) = []"
  by (simp add: parse_contribution_page_def finish_parse_def parse_body_record)

lemma title_spec_None: "find title_candidate ls = None \<Longrightarrow> title_spec ls = []"
  by (simp add: title_spec_def)

lemma title_spec_nonempty:
  "title_spec ls \<noteq> [] \<Longrightarrow> find title_candidate ls = Some (title_spec ls)"
  by (auto simp: title_spec_def split: option.splits)

section \<open>The validity gate\<close>

text \<open>
  C1. \<open>parse\<close> returns a record exactly when the extracted contribution code and the
  extracted title are both non-empty, and the record carries them; returning no record
  logs no error. In particular a page text that contains "Contribution code: AB123" and
  has no line that qualifies as a title gives no record.
\<close>

theorem parse_returns_record_iff:
  "(parse text n \<noteq> None \<longleftrightarrow> find_code text \<noteq> [] \<and> find_title text \<noteq> [])
   \<and> (parse text n = Some r \<longrightarrow> contribution_code r = find_code text \<and> title r = find_title text)
   \<and> snd (parse_contribution_page text n) = []
   \<and> (contains text ''Contribution code: AB123'' \<and> find title_candidate (page_lines text) = None
        \<longrightarrow> parse text n = None)"
  by (auto simp: parse_eq page_record_code page_record_title parse_log_empty find_title_spec
      title_spec_None)

theorem parse_returns_record_iff_witness:
  "contains (join_nl [''Contribution code: AB123'', ''Intro'']) ''Contribution code: AB123''
   \<and> find title_candidate (page_lines (join_nl [''Contribution code: AB123'', ''Intro''])) = None
   \<and> parse (join_nl [''Contribution code: AB123'', ''Intro'']) 2 = None"
proof -
  define T where "T = join_nl [''Contribution code: AB123'', ''Intro'']"
  have h1: "contains T ''Contribution code: AB123''" unfolding T_def by code_simp
  have h2: "find title_candidate (page_lines T) = None" unfolding T_def by code_simp
  from h1 h2 parse_returns_record_iff [of T 2] have "parse T 2 = None" by blast
  with h1 h2 show ?thesis unfolding T_def by blast
qed

section \<open>The title\<close>

text \<open>
  C3. The title is the first of the trimmed non-empty lines that has no header marker
  (case-insensitively), does not match the weekday and date pattern, is longer than 10
  characters and does not start with "http"; lines before it that fail one of these
  conditions are passed over. So the title of a returned record is longer than 10
  characters and never starts with "http".
\<close>

theorem title_is_first_candidate:
  "find_title text = (case find title_candidate (page_lines text) of None \<Rightarrow> [] | Some l \<Rightarrow> l)
   \<and> (parse text n = Some r \<longrightarrow>
         find title_candidate (page_lines text) = Some (title r)
         \<and> 10 < length (title r) \<and> \<not> startswith (title r) ''http'')"
proof -
  have a: "find_title text = (case find title_candidate (page_lines text) of None \<Rightarrow> [] | Some l \<Rightarrow> l)"
    by (simp add: find_title_spec title_spec_def)
  have b: "find title_candidate (page_lines text) = Some (title r)
           \<and> 10 < length (title r) \<and> \<not> startswith (title r) ''http''"
    if "parse text n = Some r"
  proof -
    from that have r: "r = page_record text n" and ne: "title (page_record text n) \<noteq> []"
      by (auto simp: parse_eq split: if_splits)
    from ne have f: "find title_candidate (page_lines text) = Some (title r)"
      by (simp add: r page_record_title_spec title_spec_nonempty)
    then have "title_candidate (title r)" by (auto simp: find_Some_iff)
    with f show ?thesis by (simp add: title_candidate_def)
  qed
  from a b show ?thesis by blast
qed

theorem title_is_first_candidate_witness:
  "map_option title
     (parse (join_nl [''Contribution code: AB123'', ''Intro'', ''https://example.org/abstracts/17'',
                      ''Niobium Thin Film Cavities'', ''Another Long Line Of Text'']) 3)
     = Some ''Niobium Thin Film Cavities''
   \<and> find title_candidate
         (page_lines (join_nl [''Contribution code: AB123'', ''Intro'',
                      ''https://example.org/abstracts/17'',
                      ''Niobium Thin Film Cavities'', ''Another Long Line Of Text'']))
       = Some ''Niobium Thin Film Cavities''"
proof -
  define T where "T = join_nl [''Contribution code: AB123'', ''Intro'',
                   ''https://example.org/abstracts/17'',
                   ''Niobium Thin Film Cavities'', ''Another Long Line Of Text'']"
  have t: "find_title T = ''Niobium Thin Film Cavities''" unfolding T_def by code_simp
  have c: "find_code T = ''AB123''" unfolding T_def by code_simp
  from t c have p: "parse T 3 = Some (page_record T 3)"
    by (simp add: parse_eq page_record_code page_record_title)
  from title_is_first_candidate [of T 3 "page_record T 3"] p
  have f: "find title_candidate (page_lines T) = Some (title (page_record T 3))" by blast
  have tt: "title (page_record T 3) = ''Niobium Thin Film Cavities''"
    using t by (simp only: page_record_title)
  from p f tt have "map_option title (parse T 3) = Some ''Niobium Thin Film Cavities''
     \<and> find title_candidate (page_lines T) = Some ''Niobium Thin Film Cavities''"
    by (simp only: option.map)
  then show ?thesis unfolding T_def .
qed

section \<open>The abstract\<close>

lemma first_abstract_line_in_set:
  "first_abstract_line ls = Some l \<Longrightarrow> l \<in> set ls \<and> 20 < length l"
  unfolding first_abstract_line_def
  by (auto simp: find_Some_iff dest!: nth_mem [THEN set_takeWhileD])

lemma lines_after_title_subset: "set (lines_after_title ls) \<subseteq> set ls"
  unfolding lines_after_title_def
  by (meson in_set_dropD set_dropWhileD subsetI)

lemma scan_abstract_length: "length (abstract_lines (scan ls scan_init)) \<le> 1"
  by (simp add: scan_abstract scan_init_def split: option.splits)

text \<open>
  C9. The abstract of a returned record is empty or is one line of the page, longer than
  20 characters: the first such line after the title among the lines that are not
  skipped, before any line starting with "footnotes" or "funding". At no point of the
  scan does the accumulator hold more than one line.
\<close>

theorem abstract_single_line:
  "(parse text n = Some r \<longrightarrow>
      abstract r = abstract_spec (page_lines text)
      \<and> (abstract r = [] \<or> abstract r \<in> set (page_lines text) \<and> 20 < length (abstract r)))
   \<and> (\<forall>k. length (abstract_lines (scan (take k (page_lines text)) scan_init)) \<le> 1)"
proof -
  have a: "abstract r = abstract_spec (page_lines text)
      \<and> (abstract r = [] \<or> abstract r \<in> set (page_lines text) \<and> 20 < length (abstract r))"
    if "parse text n = Some r"
  proof -
    from that have r: "r = page_record text n"
      by (auto simp: parse_eq split: if_splits)
    then have eq: "abstract r = abstract_spec (page_lines text)"
      by (simp add: page_record_abstract)
    show ?thesis
    proof (cases "first_abstract_line (lines_after_title (page_lines text))")
      case None
      with eq show ?thesis by (simp add: abstract_spec_def)
    next
      case (Some l)
      then have "l \<in> set (lines_after_title (page_lines text)) \<and> 20 < length l"
        by (rule first_abstract_line_in_set)
      with lines_after_title_subset have "l \<in> set (page_lines text) \<and> 20 < length l"
        by blast
      with eq Some show ?thesis by (simp add: abstract_spec_def)
    qed
  qed
  with scan_abstract_length show ?thesis by blast
qed

theorem abstract_single_line_witness:
  "map_option abstract
     (parse (join_nl [''Contribution code: TUB003'', ''Niobium Thin Film Cavities'', ''Short'',
                      ''A first long line of the abstract.'',
                      ''A second long line of the abstract.'']) 4)
     = Some ''A first long line of the abstract.''
   \<and> abstract_spec
         (page_lines (join_nl [''Contribution code: TUB003'', ''Niobium Thin Film Cavities'',
                      ''Short'', ''A first long line of the abstract.'',
                      ''A second long line of the abstract.'']))
       = ''A first long line of the abstract.''"
proof -
  define T where "T = join_nl [''Contribution code: TUB003'', ''Niobium Thin Film Cavities'',
                      ''Short'', ''A first long line of the abstract.'',
                      ''A second long line of the abstract.'']"
  have t: "find_title T = ''Niobium Thin Film Cavities''" unfolding T_def by code_simp
  have c: "find_code T = ''TUB003''" unfolding T_def by code_simp
  have a: "abstract_spec (page_lines T) = ''A first long line of the abstract.''"
    unfolding T_def by code_simp
  from t c have p: "parse T 4 = Some (page_record T 4)"
    by (simp add: parse_eq page_record_code page_record_title)
  from abstract_single_line [of T 4 "page_record T 4"] p
  have "abstract (page_record T 4) = abstract_spec (page_lines T)" by blast
  with p a have "map_option abstract (parse T 4) = Some ''A first long line of the abstract.''
     \<and> abstract_spec (page_lines T) = ''A first long line of the abstract.''"
    by (simp only: option.map)
  then show ?thesis unfolding T_def .
qed

text \<open>
  C2. On a page with two long lines after the title, the abstract is the first of them
  only: once \<open>abstract_start\<close> is set, the branch of the loop that appends lines is no
  longer entered, so the lines that follow are not appended.
\<close>

theorem abstract_later_lines_dropped:
  "map_option abstract
     (parse (join_nl [''Contribution code: TUB003'',
                      ''Superconducting Cavity Performance Improvements'',
                      ''This work presents a detailed study.'',
                      ''It continues on a second line.'',
                      ''Footnotes'', ''Supported by Grant XYZ.'']) 5)
   = Some ''This work presents a detailed study.''"
  by code_simp

section \<open>The session of a record\<close>

text \<open>
  C10. In a returned record the session code is empty exactly when the contribution code
  has fewer than 3 characters, and otherwise is its first 3 characters; the session is
  non-empty exactly when the session code is.
\<close>

theorem session_code_prefix:
  "parse text n = Some r \<longrightarrow>
     contribution_code r = find_code text
     \<and> (session_code r = [] \<longleftrightarrow> length (contribution_code r) < 3)
     \<and> (session_code r = [] \<or> session_code r = take 3 (contribution_code r))
     \<and> (session r \<noteq> [] \<longleftrightarrow> session_code r \<noteq> [])"
proof
  assume "parse text n = Some r"
  then have r: "r = page_record text n" and ne: "find_code text \<noteq> []"
    by (auto simp: parse_eq page_record_code split: if_splits)
  show "contribution_code r = find_code text
     \<and> (session_code r = [] \<longleftrightarrow> length (contribution_code r) < 3)
     \<and> (session_code r = [] \<or> session_code r = take 3 (contribution_code r))
     \<and> (session r \<noteq> [] \<longleftrightarrow> session_code r \<noteq> [])"
    using ne
    by (auto simp: r page_record_code page_record_session_code page_record_session
        get_session_name_nonempty)
qed

theorem session_code_prefix_witness:
  "map_option (\<lambda>r. (contribution_code r, session_code r, session r))
     (parse (join_nl [''Contribution code: A1'', ''Niobium Thin Film Cavities'']) 2)
     = Some (''A1'', [], [])
   \<and> map_option (\<lambda>r. (contribution_code r, session_code r, session r))
     (parse (join_nl [''Contribution code: WEP042'', ''Niobium Thin Film Cavities'']) 3)
     = Some (''WEP042'', ''WEP'', ''Wednesday Poster Session'')"
proof -
  define T where "T = join_nl [''Contribution code: A1'', ''Niobium Thin Film Cavities'']"
  define U where "U = join_nl [''Contribution code: WEP042'', ''Niobium Thin Film Cavities'']"
  have t: "find_title T = ''Niobium Thin Film Cavities''" unfolding T_def by code_simp
  have c: "find_code T = ''A1''" unfolding T_def by code_simp
  have u: "find_title U = ''Niobium Thin Film Cavities''" unfolding U_def by code_simp
  have d: "find_code U = ''WEP042''" unfolding U_def by code_simp
  have g: "get_session_name ''WEP'' = ''Wednesday Poster Session''" by code_simp
  from t c have p: "parse T 2 = Some (page_record T 2)"
    by (simp add: parse_eq page_record_code page_record_title)
  from u d have q: "parse U 3 = Some (page_record U 3)"
    by (simp add: parse_eq page_record_code page_record_title)
  from session_code_prefix [of T 2 "page_record T 2"] p c
  have 1: "contribution_code (page_record T 2) = ''A1''" "session_code (page_record T 2) = []"
    "session (page_record T 2) = []"
    by simp_all
  from session_code_prefix [of U 3 "page_record U 3"] q d
  have 2: "contribution_code (page_record U 3) = ''WEP042''"
    "session_code (page_record U 3) = ''WEP''"
    by auto
  from d g have 3: "session (page_record U 3) = ''Wednesday Poster Session''"
    by (simp add: page_record_session)
  from p q 1 2 3 have "map_option (\<lambda>r. (contribution_code r, session_code r, session r)) (parse T 2)
     = Some (''A1'', [], [])
   \<and> map_option (\<lambda>r. (contribution_code r, session_code r, session r)) (parse U 3)
     = Some (''WEP042'', ''WEP'', ''Wednesday Poster Session'')"
    by simp
  then show ?thesis unfolding T_def U_def .
qed

section \<open>The classifier and the session of a page\<close>

text \<open>
  C4 (amended). \<open>get_session_name\<close> returns a non-empty string for every input: the
  display name of a code that is in the table ("MOA" gives "Monday Opening and Awards"),
  and "Session " followed by the code itself for a code that is not ("ZZZ" gives
  "Session ZZZ"). For a page text in which the first occurrence of "Contribution code:"
  is followed by " MOA007", a returned record has session_code "MOA" and session
  "Monday Opening and Awards".
\<close>

theorem session_classifier:
  "get_session_name code \<noteq> []
   \<and> (\<forall>name. (code, name) \<in> set session_map \<longrightarrow> get_session_name code = name)
   \<and> (code \<notin> fst ` set session_map \<longrightarrow> get_session_name code = ''Session '' @ code)
   \<and> get_session_name ''MOA'' = ''Monday Opening and Awards''
   \<and> get_session_name ''ZZZ'' = ''Session ZZZ''
   \<and> (after_first ''Contribution code:'' txt = Some t \<and> startswith t '' MOA007''
        \<and> parse txt n = Some r
        \<longrightarrow> session_code r = ''MOA'' \<and> session r = ''Monday Opening and Awards'')"
proof -
  have moa: "get_session_name ''MOA'' = ''Monday Opening and Awards''" by code_simp
  have zzz: "get_session_name ''ZZZ'' = ''Session ZZZ''" by code_simp
  have rec: "session_code r = ''MOA'' \<and> session r = ''Monday Opening and Awards''"
    if a: "after_first ''Contribution code:'' txt = Some t" and b: "startswith t '' MOA007''"
      and p: "parse txt n = Some r"
  proof -
    from a b obtain d where d: "find_code txt = ''MOA007'' @ d"
      using find_code_after_label by blast
    from p have r: "r = page_record txt n"
      by (auto simp: parse_eq split: if_splits)
    from d moa show ?thesis
      by (simp add: r page_record_session_code page_record_session)
  qed
  from get_session_name_nonempty get_session_name_known get_session_name_unknown moa zzz rec
  show ?thesis by blast
qed

theorem session_classifier_witness:
  "(''TUB'', ''Tuesday Oral Session B'') \<in> set session_map
   \<and> get_session_name ''TUB'' = ''Tuesday Oral Session B''
   \<and> ''QQQ'' \<notin> fst ` set session_map
   \<and> get_session_name ''QQQ'' = ''Session QQQ''
   \<and> after_first ''Contribution code:''
        (join_nl [''Report of Contributions'', ''Contribution code: MOA007'',
                  ''Opening Remarks And Welcome''])
       = Some ('' MOA007'' @ [NL] @ ''Opening Remarks And Welcome'')
   \<and> startswith ('' MOA007'' @ [NL] @ ''Opening Remarks And Welcome'') '' MOA007''
   \<and> map_option (\<lambda>r. (session_code r, session r))
        (parse (join_nl [''Report of Contributions'', ''Contribution code: MOA007'',
                         ''Opening Remarks And Welcome'']) 2)
       = Some (''MOA'', ''Monday Opening and Awards'')"
proof -
  define T where "T = join_nl [''Report of Contributions'', ''Contribution code: MOA007'',
                  ''Opening Remarks And Welcome'']"
  define t where "t = '' MOA007'' @ [NL] @ ''Opening Remarks And Welcome''"
  have m: "(''TUB'', ''Tuesday Oral Session B'') \<in> set session_map" by code_simp
  have q: "''QQQ'' \<notin> fst ` set session_map" by code_simp
  have a: "after_first ''Contribution code:'' T = Some t" unfolding T_def t_def by code_simp
  have b: "startswith t '' MOA007''" unfolding t_def by code_simp
  have ti: "find_title T = ''Opening Remarks And Welcome''" unfolding T_def by code_simp
  have c: "find_code T = ''MOA007''" unfolding T_def by code_simp
  from ti c have p: "parse T 2 = Some (page_record T 2)"
    by (simp add: parse_eq page_record_code page_record_title)
  note i1 = session_classifier [of "''TUB''" T t 2 "page_record T 2"]
  note i2 = session_classifier [of "''QQQ''" T t 2 "page_record T 2"]
  from i1 m have 1: "get_session_name ''TUB'' = ''Tuesday Oral Session B''" by blast
  from i2 q have 2: "get_session_name ''QQQ'' = ''Session QQQ''" by simp
  from i1 a b p have 3: "session_code (page_record T 2) = ''MOA''"
    "session (page_record T 2) = ''Monday Opening and Awards''" by blast+
  from p 3 have 4: "map_option (\<lambda>r. (session_code r, session r)) (parse T 2)
       = Some (''MOA'', ''Monday Opening and Awards'')" by simp
  from m q a b 1 2 4 show ?thesis unfolding T_def t_def by blast
qed

text \<open>
  The claim as stated fails for a page text that contains "Contribution code: MOA007"
  after another contribution code: the search keeps the first match.
\<close>

theorem session_of_first_code_counterexample:
  "contains (join_nl [''Contribution code: TUB003'', ''Contribution code: MOA007'',
                      ''Superconducting Cavity Performance Improvements''])
     ''Contribution code: MOA007''
   \<and> map_option (\<lambda>r. (session_code r, session r))
        (parse (join_nl [''Contribution code: TUB003'', ''Contribution code: MOA007'',
                         ''Superconducting Cavity Performance Improvements'']) 7)
       = Some (''TUB'', ''Tuesday Oral Session B'')"
  by code_simp

section \<open>Failures of single pages\<close>

lemma process_page_contributions:
  "contributions (process_page self p) = contributions self @ page_records p"
  by (cases p)
     (auto simp: process_page_def page_records_def parse_def split: sum.splits option.splits prod.splits)

lemma process_page_log: "set (log self) \<subseteq> set (log (process_page self p))"
  by (cases p)
     (auto simp: process_page_def split: sum.splits option.splits prod.splits)

lemma loop_contributions:
  "contributions (foldl process_page self ps) = contributions self @ concat (map page_records ps)"
  by (induction ps arbitrary: self) (simp_all add: process_page_contributions)

lemma loop_log: "set (log self) \<subseteq> set (log (foldl process_page self ps))"
proof (induction ps arbitrary: self)
  case Nil
  then show ?case by simp
next
  case (Cons p ps)
  have "set (log self) \<subseteq> set (log (process_page self p))" by (rule process_page_log)
  also have "\<dots> \<subseteq> set (log (foldl process_page (process_page self p) ps))" by (rule Cons.IH)
  finally show ?case by simp
qed

lemma process_page_failure:
  "process_page self (i, Inl e) = self\<lparr>log := log self @ [ErrorProcessingPage (int i + 1) e]\<rparr>"
  by (simp add: process_page_def)

text \<open>
  C8. An exception in the \<open>try\<close> block of the parser gives no record and an error entry
  with the page number. A page whose processing raises adds no record and an error entry
  with its page number, and the loop goes on: the records of a run are those of its
  pages, one page after the other, so a failing page changes nothing in the records of
  the other pages, and its error entry is in the log at the end.
\<close>

theorem page_failure_is_local:
  "finish_parse (Inl e) n = (None, [ErrorParsingPage n e])
   \<and> process_page self (i, Inl e) = self\<lparr>log := log self @ [ErrorProcessingPage (int i + 1) e]\<rparr>
   \<and> contributions (foldl process_page self ps) = contributions self @ concat (map page_records ps)
   \<and> contributions (foldl process_page self (ps @ (i, Inl e) # qs))
       = contributions (foldl process_page self (ps @ qs))
   \<and> ErrorProcessingPage (int i + 1) e \<in> set (log (foldl process_page self (ps @ (i, Inl e) # qs)))
   \<and> fst (extract_contributions self (Inr pages))
       = contributions self @ concat (map page_records (numbered_pages pages))"
proof -
  have 1: "finish_parse (Inl e) n = (None, [ErrorParsingPage n e])"
    by (simp add: finish_parse_def)
  have 4: "contributions (foldl process_page self (ps @ (i, Inl e) # qs))
       = contributions (foldl process_page self (ps @ qs))"
    by (simp add: loop_contributions process_page_contributions page_records_def)
  have "ErrorProcessingPage (int i + 1) e
          \<in> set (log (process_page (foldl process_page self ps) (i, Inl e)))"
    by (simp add: process_page_failure)
  with loop_log [of "process_page (foldl process_page self ps) (i, Inl e)" qs]
  have 5: "ErrorProcessingPage (int i + 1) e
          \<in> set (log (foldl process_page self (ps @ (i, Inl e) # qs)))"
    by auto
  have 6: "fst (extract_contributions self (Inr pages))
       = contributions self @ concat (map page_records (numbered_pages pages))"
    by (simp add: extract_contributions_def Let_def loop_contributions)
  from 1 process_page_failure loop_contributions 4 5 6 show ?thesis by blast
qed

section \<open>The footnotes\<close>

lemma strip_append_space: "is_space c \<Longrightarrow> strip (s @ [c]) = strip s"
proof (cases "\<forall>x\<in>set s. is_space x")
  case True
  assume c: "is_space c"
  from True have 1: "dropWhile is_space s = []" by (simp add: dropWhile_eq_Nil_conv)
  from True c have 2: "dropWhile is_space (s @ [c]) = []" by (simp add: dropWhile_eq_Nil_conv)
  show ?thesis unfolding strip_def 1 2 ..
next
  case False
  assume c: "is_space c"
  from False have "dropWhile is_space (s @ [c]) = dropWhile is_space s @ [c]"
    by (auto simp: dropWhile_append1)
  with c show ?thesis by (simp add: strip_def)
qed

lemma lazy_group_first:
  "ok [] \<Longrightarrow>
   \<exists>ms. concat (map (\<lambda>x. if ok x then [(x, Some (take (length (u @ s) - length x) (u @ s)))] else [])
                (lazy_tails AnyChar s))
        = (drop (length (lazy_prefix ok s)) s, Some (u @ lazy_prefix ok s)) # ms"
proof (induction s arbitrary: u)
  case Nil
  then show ?case by simp
next
  case (Cons c cs)
  show ?case
  proof (cases "ok (c # cs)")
    case True
    then show ?thesis by simp
  next
    case False
    from Cons.IH [OF Cons.prems, of "u @ [c]"] obtain ms where
      "concat (map (\<lambda>x. if ok x then [(x, Some (take (length ((u @ [c]) @ cs) - length x) ((u @ [c]) @ cs)))] else [])
                (lazy_tails AnyChar cs))
        = (drop (length (lazy_prefix ok cs)) cs, Some ((u @ [c]) @ lazy_prefix ok cs)) # ms"
      by blast
    then have "concat (map (\<lambda>x. if ok x then [(x, Some (take (length (u @ c # cs) - length x) (u @ c # cs)))] else [])
                (lazy_tails AnyChar cs))
        = (drop (length (lazy_prefix ok cs)) cs, Some (u @ c # lazy_prefix ok cs)) # ms"
      unfolding append_assoc append_Cons append_Nil .
    with False show ?thesis by simp
  qed
qed

lemma before_first_lazy_prefix:
  "before_first m s = lazy_prefix (\<lambda>x. startswith x m \<or> x = [] \<or> x = [NL]) s
   \<or> before_first m s = lazy_prefix (\<lambda>x. startswith x m \<or> x = [] \<or> x = [NL]) s @ [NL]"
proof (induction s)
  case Nil
  then show ?case by simp
next
  case (Cons c cs)
  then show ?case by (cases cs) auto
qed

lemma space_NL: "is_space NL"
  by code_simp

lemma strip_before_first:
  "strip (lazy_prefix (\<lambda>x. startswith x m \<or> x = [] \<or> x = [NL]) s) = strip (before_first m s)"
  using before_first_lazy_prefix [of m s] strip_append_space [OF space_NL] by auto

lemma footnotes_rmatch:
  "\<exists>ms. rmatch (Seq (Group (LazyStar AnyChar)) (Lookahead (Alt (Lit ''Contribution'') Eos))) (t, None)
     = (drop (length (lazy_prefix (\<lambda>x. startswith x ''Contribution'' \<or> x = [] \<or> x = [NL]) t)) t,
        Some (lazy_prefix (\<lambda>x. startswith x ''Contribution'' \<or> x = [] \<or> x = [NL]) t)) # ms"
proof -
  let ?ok = "\<lambda>x. startswith x ''Contribution'' \<or> x = [] \<or> x = [NL]"
  have "rmatch (Seq (Group (LazyStar AnyChar)) (Lookahead (Alt (Lit ''Contribution'') Eos))) (t, None)
     = concat (map (\<lambda>x. if ?ok x then [(x, Some (take (length ([] @ t) - length x) ([] @ t)))] else [])
                (lazy_tails AnyChar t))"
    by (simp add: comp_def map_concat) (rule arg_cong [where f = concat], rule map_cong, auto)
  with lazy_group_first [of ?ok "[]" t] show ?thesis by simp
qed


lemma find_footnotes_spec: "find_footnotes s = footnotes_spec s"
proof (cases "after_first ''Footnotes'' s")
  case None
  then have "search footnotes_re s = None"
    by (simp add: footnotes_re_def search_after_first_None)
  with None show ?thesis by (simp add: find_footnotes_def footnotes_spec_def)
next
  case (Some t)
  let ?p = "lazy_prefix (\<lambda>x. startswith x ''Contribution'' \<or> x = [] \<or> x = [NL]) t"
  obtain ms where
    "rmatch (Seq (Group (LazyStar AnyChar)) (Lookahead (Alt (Lit ''Contribution'') Eos))) (t, None)
       = (drop (length ?p) t, Some ?p) # ms"
    using footnotes_rmatch by blast
  with Some obtain u where "search footnotes_re s = Some (u, drop (length ?p) t, Some ?p)"
    unfolding footnotes_re_def seqs.simps using search_after_first_Some by blast
  then have "find_footnotes s = strip ?p"
    by (simp add: find_footnotes_def group1_def)
  with Some show ?thesis by (simp add: footnotes_spec_def strip_before_first)
qed

lemma page_record_footnotes: "footnotes (page_record s n) = find_footnotes s"
  by (simp add: page_record_def parse_body_def Let_def split: option.splits)

text \<open>
  C7. The footnotes field is the text after the first "Footnotes" of the page text, up to
  but not including the next "Contribution" or the end of the text, line breaks included,
  trimmed. It is a function of the whole page text alone, whatever the scan of the lines
  did.
\<close>

theorem footnotes_whole_text:
  "find_footnotes txt = footnotes_spec txt
   \<and> (parse txt n = Some r \<longrightarrow> footnotes r = footnotes_spec txt)"
proof -
  have "footnotes r = footnotes_spec txt" if "parse txt n = Some r"
  proof -
    from that have "r = page_record txt n" by (auto simp: parse_eq split: if_splits)
    then show ?thesis by (simp add: page_record_footnotes find_footnotes_spec)
  qed
  with find_footnotes_spec show ?thesis by blast
qed

theorem footnotes_whole_text_witness:
  "map_option footnotes
     (parse (join_nl [''Contribution code: TUB003'', ''Niobium Thin Film Cavities'',
                      ''A first long line of the abstract.'', ''Footnotes'',
                      ''Supported by Grant XYZ.'', ''See also the poster.'',
                      ''Contribution ID: 43'']) 6)
     = Some (''Supported by Grant XYZ.'' @ [NL] @ ''See also the poster.'')
   \<and> footnotes_spec (join_nl [''Contribution code: TUB003'', ''Niobium Thin Film Cavities'',
                      ''A first long line of the abstract.'', ''Footnotes'',
                      ''Supported by Grant XYZ.'', ''See also the poster.'',
                      ''Contribution ID: 43''])
     = ''Supported by Grant XYZ.'' @ [NL] @ ''See also the poster.''"
proof -
  define T where "T = join_nl [''Contribution code: TUB003'', ''Niobium Thin Film Cavities'',
                      ''A first long line of the abstract.'', ''Footnotes'',
                      ''Supported by Grant XYZ.'', ''See also the poster.'',
                      ''Contribution ID: 43'']"
  have t: "find_title T = ''Niobium Thin Film Cavities''" unfolding T_def by code_simp
  have c: "find_code T = ''TUB003''" unfolding T_def by code_simp
  have f: "footnotes_spec T = ''Supported by Grant XYZ.'' @ [NL] @ ''See also the poster.''"
    unfolding T_def by code_simp
  from t c have p: "parse T 6 = Some (page_record T 6)"
    by (simp add: parse_eq page_record_code page_record_title)
  from footnotes_whole_text [of T 6 "page_record T 6"] p
  have "footnotes (page_record T 6) = footnotes_spec T" by blast
  with p f have "map_option footnotes (parse T 6)
       = Some (''Supported by Grant XYZ.'' @ [NL] @ ''See also the poster.'')
     \<and> footnotes_spec T = ''Supported by Grant XYZ.'' @ [NL] @ ''See also the poster.''"
    by (simp only: option.map)
  then show ?thesis unfolding T_def .
qed

section \<open>The date and time\<close>

lemma concat_map_concat_map:
  "concat (map f (concat (map g xs))) = concat (map (\<lambda>x. concat (map f (g x))) xs)"
  by (induction xs) auto

lemma rmatch_Seq_fun: "rmatch (Seq b c) = (\<lambda>x. concat (map (rmatch c) (rmatch b x)))"
  by (rule ext) simp

lemma rmatch_Seq_assoc: "rmatch (Seq (Seq a b) c) st = rmatch (Seq a (Seq b c)) st"
  by (simp add: concat_map_concat_map rmatch_Seq_fun)

lemma rmatch_Seq_cong: "(\<And>st. rmatch b st = rmatch b' st) \<Longrightarrow> rmatch (Seq a b) st = rmatch (Seq a b') st"
  by (simp cong: map_cong)

lemma rmatch_seqs_snoc:
  "xs \<noteq> [] \<Longrightarrow> rmatch (seqs (xs @ [r])) st = rmatch (Seq (seqs xs) r) st"
proof (induction xs arbitrary: st rule: seqs.induct)
  case 1
  then show ?case by simp
next
  case (2 a)
  then show ?case by simp
next
  case (3 a b rs)
  have "rmatch (seqs ((a # b # rs) @ [r])) st = rmatch (Seq a (seqs ((b # rs) @ [r]))) st"
    by simp
  also have "\<dots> = rmatch (Seq a (Seq (seqs (b # rs)) r)) st"
    by (rule rmatch_Seq_cong) (rule "3.IH", simp)
  also have "\<dots> = rmatch (Seq (seqs (a # b # rs)) r) st"
    by (simp only: rmatch_Seq_assoc seqs.simps)
  finally show ?case .
qed

lemma search_Some:
  "search r s = Some (u, t, g) \<Longrightarrow>
   \<exists>pre ms. s = pre @ u \<and> rmatch r (u, None) = (t, g) # ms
     \<and> (\<forall>i<length pre. rmatch r (drop i s, None) = [])"
proof (induction s)
  case Nil
  then show ?case by (auto split: list.splits)
next
  case (Cons c cs)
  show ?case
  proof (cases "rmatch r (c # cs, None)")
    case Nil
    with Cons.prems have "search r cs = Some (u, t, g)" by simp
    with Cons.IH obtain pre ms where
      p: "cs = pre @ u" "rmatch r (u, None) = (t, g) # ms"
      "\<forall>i<length pre. rmatch r (drop i cs, None) = []" by blast
    have "\<forall>i<length (c # pre). rmatch r (drop i (c # cs), None) = []"
    proof (intro allI impI)
      fix i assume "i < length (c # pre)"
      then show "rmatch r (drop i (c # cs), None) = []"
        using Nil p(3) by (cases i) auto
    qed
    with p(1,2) have "c # cs = (c # pre) @ u \<and> rmatch r (u, None) = (t, g) # ms
      \<and> (\<forall>i<length (c # pre). rmatch r (drop i (c # cs), None) = [])" by simp
    then show ?thesis by blast
  next
    case (Cons m ms)
    with Cons.prems have "c # cs = [] @ u \<and> rmatch r (u, None) = (t, g) # ms"
      by (cases m) auto
    then show ?thesis by force
  qed
qed

lemma concat_map_head:
  "concat (map h xs) = y # ys \<Longrightarrow>
   \<exists>pre x post zs. xs = pre @ x # post \<and> (\<forall>p\<in>set pre. h p = []) \<and> h x = y # zs"
proof (induction xs)
  case Nil
  then show ?case by simp
next
  case (Cons a xs)
  show ?case
  proof (cases "h a")
    case Nil
    with Cons.prems have "concat (map h xs) = y # ys" by simp
    with Cons.IH obtain pre x post zs where
      "xs = pre @ x # post" "\<forall>p\<in>set pre. h p = []" "h x = y # zs" by blast
    with Nil have "a # xs = (a # pre) @ x # post \<and> (\<forall>p\<in>set (a # pre). h p = []) \<and> h x = y # zs"
      by simp
    then show ?thesis by blast
  next
    case (Cons b bs)
    with Cons.prems have "h a = y # bs" by simp
    then have "a # xs = [] @ a # xs \<and> (\<forall>p\<in>set []. h p = []) \<and> h a = y # bs" by simp
    then show ?thesis by blast
  qed
qed

lemma lazy_tails_split:
  "lazy_tails k c = pre @ t # post \<Longrightarrow>
   \<exists>d. c = d @ t \<and> (\<forall>x\<in>set d. cls_mem k x) \<and> (\<forall>j<length d. drop j c \<in> set pre)"
proof (induction c arbitrary: pre)
  case Nil
  then have "pre = []" "t = []" by (auto simp: Cons_eq_append_conv)
  then show ?case by simp
next
  case (Cons a c)
  show ?case
  proof (cases pre)
    case Nil
    with Cons.prems have "t = a # c" by simp
    then show ?thesis by simp
  next
    case (Cons p pre')
    with Cons.prems have p: "p = a # c" and k: "cls_mem k a" and r: "lazy_tails k c = pre' @ t # post"
      by (auto split: if_splits)
    from Cons.IH [OF r] obtain d where
      d: "c = d @ t" "\<forall>x\<in>set d. cls_mem k x" "\<forall>j<length d. drop j c \<in> set pre'" by blast
    have "\<forall>j<length (a # d). drop j (a # c) \<in> set pre"
    proof (intro allI impI)
      fix j assume "j < length (a # d)"
      then show "drop j (a # c) \<in> set pre"
        using d(3) p Cons by (cases j) auto
    qed
    with d(1,2) k have "a # c = (a # d) @ t \<and> (\<forall>x\<in>set (a # d). cls_mem k x)
       \<and> (\<forall>j<length (a # d). drop j (a # c) \<in> set pre)" by simp
    then show ?thesis by blast
  qed
qed


lemma greedy_tails_consumed:
  "t \<in> set (greedy_tails k s) \<Longrightarrow> \<exists>e. s = e @ t \<and> (\<forall>x\<in>set e. cls_mem k x)"
proof (induction s)
  case Nil
  then show ?case by simp
next
  case (Cons c s)
  show ?case
  proof (cases "t = c # s")
    case True
    then show ?thesis by simp
  next
    case False
    with Cons.prems have k: "cls_mem k c" and "t \<in> set (greedy_tails k s)"
      by (auto split: if_splits)
    with Cons.IH obtain e where "s = e @ t" "\<forall>x\<in>set e. cls_mem k x" by blast
    with k have "c # s = (c # e) @ t \<and> (\<forall>x\<in>set (c # e). cls_mem k x)" by simp
    then show ?thesis by blast
  qed
qed

lemma lazy_tails_consumed:
  "t \<in> set (lazy_tails k s) \<Longrightarrow> \<exists>e. s = e @ t \<and> (\<forall>x\<in>set e. cls_mem k x)"
proof (induction s)
  case Nil
  then show ?case by simp
next
  case (Cons c s)
  show ?case
  proof (cases "t = c # s")
    case True
    then show ?thesis by simp
  next
    case False
    with Cons.prems have k: "cls_mem k c" and "t \<in> set (lazy_tails k s)"
      by (auto split: if_splits)
    with Cons.IH obtain e where "s = e @ t" "\<forall>x\<in>set e. cls_mem k x" by blast
    with k have "c # s = (c # e) @ t \<and> (\<forall>x\<in>set (c # e). cls_mem k x)" by simp
    then show ?thesis by blast
  qed
qed

lemma rmatch_consumes_no:
  "consumes_no ch r \<Longrightarrow> (t, g') \<in> set (rmatch r (s, g)) \<Longrightarrow> \<exists>e. s = e @ t \<and> ch \<notin> set e"
proof (induction r arbitrary: s g t g')
  case (Lit l)
  then have "startswith s l" and t: "t = drop (length l) s" by (auto split: if_splits)
  then have "s = l @ t" by (simp add: startswith_drop)
  with Lit.prems(1) show ?case by auto
next
  case (Cls k)
  then obtain c where "s = c # t" "cls_mem k c" by (auto split: list.splits if_splits)
  with Cls.prems(1) have "s = [c] @ t \<and> ch \<notin> set [c]" by auto
  then show ?case by blast
next
  case (Star k)
  then have "t \<in> set (greedy_tails k s)" by auto
  then obtain e where "s = e @ t" "\<forall>x\<in>set e. cls_mem k x" using greedy_tails_consumed by blast
  with Star.prems(1) show ?case by auto
next
  case (Plus k)
  then obtain c cs where s: "s = c # cs" and c: "cls_mem k c" and "t \<in> set (greedy_tails k cs)"
    by (auto split: list.splits if_splits)
  then obtain e where "cs = e @ t" "\<forall>x\<in>set e. cls_mem k x" using greedy_tails_consumed by blast
  with s c Plus.prems(1) have "s = (c # e) @ t \<and> ch \<notin> set (c # e)" by auto
  then show ?case by blast
next
  case (LazyStar k)
  then have "t \<in> set (lazy_tails k s)" by auto
  then obtain e where "s = e @ t" "\<forall>x\<in>set e. cls_mem k x" using lazy_tails_consumed by blast
  with LazyStar.prems(1) show ?case by auto
next
  case (Seq a b)
  from Seq.prems(2) obtain m gm where
    m: "(m, gm) \<in> set (rmatch a (s, g))" and t: "(t, g') \<in> set (rmatch b (m, gm))"
    by auto
  from Seq.prems(1) have ca: "consumes_no ch a" and cb: "consumes_no ch b" by simp_all
  from Seq.IH(1) [OF ca m] obtain e1 where e1: "s = e1 @ m" "ch \<notin> set e1" by blast
  from Seq.IH(2) [OF cb t] obtain e2 where e2: "m = e2 @ t" "ch \<notin> set e2" by blast
  from e1 e2 have "s = (e1 @ e2) @ t \<and> ch \<notin> set (e1 @ e2)" by simp
  then show ?case by blast
next
  case (Alt a b)
  then show ?case by auto
next
  case (Group r)
  from Group.prems(2) obtain g'' where "(t, g'') \<in> set (rmatch r (s, g))" by auto
  with Group.IH Group.prems(1) show ?case by auto
next
  case Eos
  then show ?case by (auto split: if_splits)
next
  case (Lookahead r)
  then show ?case by (auto split: if_splits)
qed


lemma datetime_group_re:
  "rmatch (seqs [Plus Word, Lit ''day, '', Plus Word, Lit '' '', Plus Digit, Lit '', '',
           Cls Digit, Cls Digit, Cls Digit, Cls Digit, Lit '' '',
           Plus Digit, Lit '':'', Plus Digit, Star Space, Cls (OneOf ''AP''), Lit ''M'', LazyStar NotNL]) st = rmatch (Seq date_core_re (LazyStar NotNL)) st"
proof -
  have "rmatch (seqs ([Plus Word, Lit ''day, '', Plus Word, Lit '' '', Plus Digit, Lit '', '',
           Cls Digit, Cls Digit, Cls Digit, Cls Digit, Lit '' '',
           Plus Digit, Lit '':'', Plus Digit, Star Space, Cls (OneOf ''AP''), Lit ''M''] @ [LazyStar NotNL])) st
      = rmatch (Seq (seqs [Plus Word, Lit ''day, '', Plus Word, Lit '' '', Plus Digit, Lit '', '',
           Cls Digit, Cls Digit, Cls Digit, Cls Digit, Lit '' '',
           Plus Digit, Lit '':'', Plus Digit, Star Space, Cls (OneOf ''AP''), Lit ''M'']) (LazyStar NotNL)) st"
    by (rule rmatch_seqs_snoc) simp
  then show ?thesis unfolding date_core_re_def by (simp only: append_Cons append_Nil)
qed

lemma core_no_paren: "consumes_no CHR ''('' date_core_re"
  by code_simp

lemma lazy_group_unfold:
  "concat (map h (map (\<lambda>(t, _). (t, Some (take (length s - length t) s)))
                   (concat (map (rmatch (LazyStar k)) cs))))
   = concat (map (\<lambda>c. concat (map (\<lambda>x. h (x, Some (take (length s - length x) s)))
                                 (lazy_tails k (fst c))))
              cs)"
  by (induction cs) (auto simp: comp_def)

lemma datetime_re_unfold:
  "rmatch datetime_re (s, None) =
     concat (map (\<lambda>c. concat (map (\<lambda>x. rmatch (Alt (Lit ''('') Eos)
                                         (x, Some (take (length s - length x) s)))
                                 (lazy_tails NotNL (fst c))))
              (rmatch date_core_re (s, None)))"
proof -
  have "rmatch datetime_re (s, None)
      = concat (map (rmatch (Alt (Lit ''('') Eos))
          (map (\<lambda>(t, _). (t, Some (take (length s - length t) s)))
             (rmatch (Seq date_core_re (LazyStar NotNL)) (s, None))))"
    unfolding datetime_re_def by (simp only: rmatch.simps datetime_group_re)
  also have "\<dots> = concat (map (rmatch (Alt (Lit ''('') Eos))
          (map (\<lambda>(t, _). (t, Some (take (length s - length t) s)))
             (concat (map (rmatch (LazyStar NotNL)) (rmatch date_core_re (s, None))))))"
    by (simp only: rmatch.simps)
  finally show ?thesis by (simp only: lazy_group_unfold)
qed

lemma datetime_rmatch:
  assumes "rmatch datetime_re (s, None) = (t, g) # ms"
  shows "\<exists>e dl rest. s = e @ dl @ rest \<and> g = Some (e @ dl)
           \<and> dl @ rest \<in> fst ` set (rmatch date_core_re (s, None))
           \<and> NL \<notin> set dl \<and> CHR ''('' \<notin> set (e @ dl)
           \<and> (rest = CHR ''('' # t \<or> (rest = [] \<or> rest = [NL]) \<and> t = rest)"
proof -
  let ?h = "\<lambda>x. rmatch (Alt (Lit ''('') Eos) (x, Some (take (length s - length x) s))"
  let ?H = "\<lambda>c. concat (map ?h (lazy_tails NotNL (fst c)))"
  from assms have "concat (map ?H (rmatch date_core_re (s, None))) = (t, g) # ms"
    by (simp only: datetime_re_unfold)
  then obtain pc c qc zs where
    cs: "rmatch date_core_re (s, None) = pc @ c # qc" and Hc: "?H c = (t, g) # zs"
    using concat_map_head [of ?H "rmatch date_core_re (s, None)" "(t, g)" ms] by blast
  obtain cr gc where c: "c = (cr, gc)" by (cases c)
  from cs c have mem: "(cr, gc) \<in> set (rmatch date_core_re (s, None))" by simp
  with core_no_paren obtain e where e: "s = e @ cr" "CHR ''('' \<notin> set e"
    using rmatch_consumes_no by blast
  from Hc c have "concat (map ?h (lazy_tails NotNL cr)) = (t, g) # zs" by simp
  then obtain pre x post zs' where
    lt: "lazy_tails NotNL cr = pre @ x # post" and
    fail: "\<forall>p\<in>set pre. ?h p = []" and hx: "?h x = (t, g) # zs'"
    using concat_map_head [of ?h "lazy_tails NotNL cr" "(t, g)" zs] by blast
  from lazy_tails_split [OF lt] obtain dl where
    dl: "cr = dl @ x" "\<forall>y\<in>set dl. cls_mem NotNL y" "\<forall>j<length dl. drop j cr \<in> set pre"
    by blast
  from dl(2) have nl: "NL \<notin> set dl" by auto
  have np: "CHR ''('' \<notin> set dl"
  proof
    assume "CHR ''('' \<in> set dl"
    then obtain j where j: "j < length dl" "dl ! j = CHR ''(''"
      by (auto simp: in_set_conv_nth)
    with dl(3) have "drop j cr \<in> set pre" by blast
    with fail have f: "?h (drop j cr) = []" by blast
    from j dl(1) have "drop j cr = CHR ''('' # drop (Suc j) cr"
      by (metis Cons_nth_drop_Suc length_append nth_append trans_less_add1)
    with f show False by simp
  qed
  from e dl have d: "take (length s - length x) s = e @ dl" by simp
  from hx d have r: "rmatch (Alt (Lit ''('') Eos) (x, Some (e @ dl)) = (t, g) # zs'" by simp
  have fin: "g = Some (e @ dl) \<and> (x = CHR ''('' # t \<or> (x = [] \<or> x = [NL]) \<and> t = x)"
  proof (cases x)
    case Nil
    with r show ?thesis by simp
  next
    case (Cons a as)
    with r show ?thesis by (auto split: if_splits)
  qed
  from mem dl(1) have "dl @ x \<in> fst ` set (rmatch date_core_re (s, None))" by force
  with e dl(1) nl np fin
  have "s = e @ dl @ x \<and> g = Some (e @ dl)
           \<and> dl @ x \<in> fst ` set (rmatch date_core_re (s, None))
           \<and> NL \<notin> set dl \<and> CHR ''('' \<notin> set (e @ dl)
           \<and> (x = CHR ''('' # t \<or> (x = [] \<or> x = [NL]) \<and> t = x)" by simp
  then show ?thesis by blast
qed


lemma page_record_date_time: "date_time (page_record s n) = find_date_time s"
  by (simp add: page_record_def parse_body_def Let_def split: option.splits)

subsection \<open>The pattern matches in at most one way\<close>

lemma det_Lit: "det (Lit l)"
  by (simp add: det_def)

lemma det_Cls: "det (Cls k)"
  by (auto simp: det_def split: list.splits)

lemma length_concat_le1:
  "length xs \<le> 1 \<Longrightarrow> (\<And>x. length (f x) \<le> 1) \<Longrightarrow> length (concat (map f xs)) \<le> 1"
  by (cases xs) auto

lemma det_Seq: "det a \<Longrightarrow> det b \<Longrightarrow> det (Seq a b)"
  unfolding det_def
proof
  fix st
  assume a: "\<forall>st. length (rmatch a st) \<le> 1" and b: "\<forall>st. length (rmatch b st) \<le> 1"
  from a have 1: "length (rmatch a st) \<le> 1" by (rule spec)
  from b have 2: "\<And>x. length (rmatch b x) \<le> 1" by (rule spec)
  from 1 2 have "length (concat (map (rmatch b) (rmatch a st))) \<le> 1"
    by (rule length_concat_le1)
  then show "length (rmatch (Seq a b) st) \<le> 1" by simp
qed

lemma greedy_concat_nostart:
  "nostart k r \<Longrightarrow>
   concat (map (\<lambda>t. rmatch r (t, g)) (greedy_tails k s)) = rmatch r (dropWhile (cls_mem k) s, g)"
  by (induction s) (auto simp: nostart_def)

lemma rmatch_Seq_Star_nostart:
  "nostart k r \<Longrightarrow> rmatch (Seq (Star k) r) (s, g) = rmatch r (dropWhile (cls_mem k) s, g)"
  using greedy_concat_nostart [of k r g s] by (simp add: comp_def)

lemma rmatch_Seq_Plus_nostart:
  "nostart k r \<Longrightarrow>
   rmatch (Seq (Plus k) r) (s, g) =
     (case s of [] \<Rightarrow> []
      | c # cs \<Rightarrow> if cls_mem k c then rmatch r (dropWhile (cls_mem k) cs, g) else [])"
proof (cases s)
  case Nil
  then show ?thesis by simp
next
  case (Cons c cs)
  assume n: "nostart k r"
  from greedy_concat_nostart [OF n, of g cs] Cons show ?thesis by (simp add: comp_def)
qed

lemma det_Seq_Star:
  assumes "det r" and "nostart k r"
  shows "det (Seq (Star k) r)"
  unfolding det_def
proof
  fix st :: mstate
  obtain s g where st: "st = (s, g)" by (cases st)
  from assms(1) have "length (rmatch r (dropWhile (cls_mem k) s, g)) \<le> 1"
    by (simp add: det_def)
  then show "length (rmatch (Seq (Star k) r) st) \<le> 1"
    unfolding st by (simp only: rmatch_Seq_Star_nostart [OF assms(2)])
qed

lemma det_Seq_Plus:
  assumes "det r" and "nostart k r"
  shows "det (Seq (Plus k) r)"
  unfolding det_def
proof
  fix st :: mstate
  obtain s g where st: "st = (s, g)" by (cases st)
  from assms(1) have d: "\<And>u. length (rmatch r (u, g)) \<le> 1"
    by (simp add: det_def)
  have "length (case s of [] \<Rightarrow> []
      | c # cs \<Rightarrow> if cls_mem k c then rmatch r (dropWhile (cls_mem k) cs, g) else []) \<le> 1"
    using d by (cases s) auto
  then show "length (rmatch (Seq (Plus k) r) st) \<le> 1"
    unfolding st by (simp only: rmatch_Seq_Plus_nostart [OF assms(2)])
qed

lemma nostart_Lit: "\<not> cls_mem k x \<Longrightarrow> nostart k (Seq (Lit (x # l)) r)"
  by (auto simp: nostart_def)

lemma nostart_Cls: "(\<And>c. cls_mem k c \<Longrightarrow> \<not> cls_mem k' c) \<Longrightarrow> nostart k (Seq (Cls k') r)"
  by (auto simp: nostart_def)

lemma nostart_Star:
  "(\<And>c. cls_mem k c \<Longrightarrow> \<not> cls_mem k' c) \<Longrightarrow> nostart k r \<Longrightarrow> nostart k (Seq (Star k') r)"
  by (auto simp: nostart_def)

lemma takeWhile_startswith:
  assumes "startswith t (w @ x # l)" and "\<forall>y\<in>set w. P y" and "\<not> P x"
  shows "takeWhile P t = w"
proof -
  from assms(1) obtain u where "t = (w @ x # l) @ u" by (auto simp: startswith_iff)
  then have "t = w @ x # (l @ u)" by simp
  with assms(2,3) show ?thesis by (simp add: takeWhile_append2)
qed

lemma greedy_le1:
  assumes d: "\<And>u. length (f u) \<le> 1"
    and x: "\<And>c cs t. cls_mem k c \<Longrightarrow> f (c # cs) \<noteq> [] \<Longrightarrow> t \<in> set (greedy_tails k cs) \<Longrightarrow> f t = []"
  shows "length (concat (map f (greedy_tails k s))) \<le> 1"
proof (induction s)
  case Nil
  from d [of "[]"] show ?case by simp
next
  case (Cons c cs)
  show ?case
  proof (cases "cls_mem k c")
    case False
    with d [of "c # cs"] show ?thesis by simp
  next
    case True
    show ?thesis
    proof (cases "f (c # cs) = []")
      case e: True
      with True Cons.IH show ?thesis by simp
    next
      case ne: False
      from x [OF True ne] have c0: "concat (map f (greedy_tails k cs)) = []" by simp
      from True have "greedy_tails k (c # cs) = greedy_tails k cs @ [c # cs]" by simp
      then have "concat (map f (greedy_tails k (c # cs)))
          = concat (map f (greedy_tails k cs)) @ f (c # cs)" by simp
      also have "\<dots> = f (c # cs)" by (simp only: c0 append_Nil)
      finally show ?thesis using d [of "c # cs"] by simp
    qed
  qed
qed

lemma Seq_Lit_nonempty: "rmatch (Seq (Lit p) r) (u, g) \<noteq> [] \<Longrightarrow> startswith u p"
  by (auto split: if_splits)

lemma det_Seq_Plus_Lit:
  assumes w: "\<forall>y\<in>set w. cls_mem k y" and x: "\<not> cls_mem k x" and r: "det r"
  shows "det (Seq (Plus k) (Seq (Lit (w @ x # l)) r))"
  unfolding det_def
proof
  fix st :: mstate
  obtain s g where st: "st = (s, g)" by (cases st)
  let ?R = "Seq (Lit (w @ x # l)) r"
  let ?f = "\<lambda>t. rmatch ?R (t, g)"
  from r det_Lit have "det ?R" by (simp add: det_Seq)
  then have d: "\<And>u. length (?f u) \<le> 1"
    by (simp only: det_def)
  have ex: "?f t = []" if k: "cls_mem k c" and ne: "?f (c # cs) \<noteq> []"
    and t: "t \<in> set (greedy_tails k cs)" for c cs t
  proof (rule ccontr)
    assume "?f t \<noteq> []"
    then have "startswith t (w @ x # l)" by (rule Seq_Lit_nonempty)
    from takeWhile_startswith [OF this w x] have tt: "takeWhile (cls_mem k) t = w" .
    from ne have "startswith (c # cs) (w @ x # l)" by (rule Seq_Lit_nonempty)
    from takeWhile_startswith [OF this w x] have tw: "takeWhile (cls_mem k) (c # cs) = w" .
    from greedy_tails_consumed [OF t] obtain e where
      e: "cs = e @ t" "\<forall>y\<in>set e. cls_mem k y" by blast
    from e k have "takeWhile (cls_mem k) (c # cs) = (c # e) @ takeWhile (cls_mem k) t"
      by (simp add: takeWhile_append2)
    with tw tt have "w = (c # e) @ w" by simp
    then show False by (metis append_self_conv2 list.distinct(1))
  qed
  have le: "length (concat (map ?f (greedy_tails k u))) \<le> 1" for u
    using d ex by (rule greedy_le1)
  have eq: "rmatch (Seq (Plus k) ?R) (s, g) =
      (case s of [] \<Rightarrow> [] | c # cs \<Rightarrow>
         if cls_mem k c then concat (map ?f (greedy_tails k cs)) else [])"
  proof -
    have "rmatch (Seq (Plus k) ?R) (s, g) = concat (map (rmatch ?R) (rmatch (Plus k) (s, g)))"
      by (rule rmatch.simps)
    also have "\<dots> = (case s of [] \<Rightarrow> [] | c # cs \<Rightarrow>
         if cls_mem k c then concat (map ?f (greedy_tails k cs)) else [])"
      by (cases s; simp only: rmatch.simps(4) list.case if_True if_False map_map comp_def
          list.map concat.simps split: if_splits; blast)
    finally show ?thesis .
  qed
  show "length (rmatch (Seq (Plus k) ?R) st) \<le> 1"
    unfolding st eq using le by (cases s) auto
qed


lemma digit_not_space: "cls_mem Digit c \<Longrightarrow> \<not> cls_mem Space c"
  by (auto simp: is_digit_def is_space_def Let_def)

lemma digit_not_AP: "cls_mem Digit c \<Longrightarrow> \<not> cls_mem (OneOf ''AP'') c"
  by (auto simp: is_digit_def Let_def)

lemma space_not_AP: "cls_mem Space c \<Longrightarrow> \<not> cls_mem (OneOf ''AP'') c"
  by (auto simp: is_space_def Let_def)

lemma date_core_det: "det date_core_re"
proof -
  let ?r16 = "Seq (Cls (OneOf ''AP'')) (Lit ''M'')"
  let ?r15 = "Seq (Star Space) ?r16"
  let ?r14 = "Seq (Plus Digit) ?r15"
  let ?r13 = "Seq (Lit '':'') ?r14"
  let ?r12 = "Seq (Plus Digit) ?r13"
  let ?r11 = "Seq (Lit '' '') ?r12"
  let ?r7 = "Seq (Cls Digit) (Seq (Cls Digit) (Seq (Cls Digit) (Seq (Cls Digit) ?r11)))"
  let ?r6 = "Seq (Lit '', '') ?r7"
  let ?r5 = "Seq (Plus Digit) ?r6"
  let ?r4 = "Seq (Lit '' '') ?r5"
  let ?r3 = "Seq (Plus Word) ?r4"
  have w: "\<forall>y\<in>set ''day''. cls_mem Word y" by code_simp
  have c1: "\<not> cls_mem Word CHR '',''" by code_simp
  have c2: "\<not> cls_mem Word CHR '' ''" by code_simp
  have c3: "\<not> cls_mem Digit CHR '',''" by code_simp
  have c4: "\<not> cls_mem Digit CHR '':''" by code_simp
  from det_Cls det_Lit have d16: "det ?r16" by (rule det_Seq)
  have n16s: "nostart Space ?r16" by (rule nostart_Cls) (rule space_not_AP)
  have n16d: "nostart Digit ?r16" by (rule nostart_Cls) (rule digit_not_AP)
  from d16 n16s have d15: "det ?r15" by (rule det_Seq_Star)
  have n15: "nostart Digit ?r15" using digit_not_space n16d by (rule nostart_Star)
  from d15 n15 have d14: "det ?r14" by (rule det_Seq_Plus)
  from det_Lit d14 have d13: "det ?r13" by (rule det_Seq)
  have n13: "nostart Digit ?r13" using c4 by (rule nostart_Lit)
  from d13 n13 have d12: "det ?r12" by (rule det_Seq_Plus)
  from det_Lit d12 have d11: "det ?r11" by (rule det_Seq)
  from det_Cls d11 have d10: "det (Seq (Cls Digit) ?r11)" by (rule det_Seq)
  from det_Cls d10 have d9: "det (Seq (Cls Digit) (Seq (Cls Digit) ?r11))" by (rule det_Seq)
  from det_Cls d9 have d8: "det (Seq (Cls Digit) (Seq (Cls Digit) (Seq (Cls Digit) ?r11)))"
    by (rule det_Seq)
  from det_Cls d8 have d7: "det ?r7" by (rule det_Seq)
  from det_Lit d7 have d6: "det ?r6" by (rule det_Seq)
  have n6: "nostart Digit ?r6" using c3 by (rule nostart_Lit)
  from d6 n6 have d5: "det ?r5" by (rule det_Seq_Plus)
  from det_Lit d5 have d4: "det ?r4" by (rule det_Seq)
  have n4: "nostart Word ?r4" using c2 by (rule nostart_Lit)
  from d4 n4 have d3: "det ?r3" by (rule det_Seq_Plus)
  from w c1 d3 have "det (Seq (Plus Word) (Seq (Lit (''day'' @ CHR '','' # '' '')) ?r3))"
    by (rule det_Seq_Plus_Lit)
  then show ?thesis by (simp add: date_core_re_def)
qed


subsection \<open>The search finds the first date and time\<close>

lemma lazy_scan:
  "(date_end (dropWhile line_char c) \<longrightarrow>
      (\<exists>t ms. concat (map (\<lambda>x. rmatch (Alt (Lit ''('') Eos) (x, G x)) (lazy_tails NotNL c))
               = (t, G (dropWhile line_char c)) # ms))
   \<and> (\<not> date_end (dropWhile line_char c) \<longrightarrow>
      concat (map (\<lambda>x. rmatch (Alt (Lit ''('') Eos) (x, G x)) (lazy_tails NotNL c)) = [])"
proof (induction c)
  case Nil
  then show ?case by (simp add: date_end_def)
next
  case (Cons a c)
  show ?case
  proof (cases "a = CHR ''('' ")
    case True
    then show ?thesis by (simp add: line_char_def date_end_def)
  next
    case np: False
    show ?thesis
    proof (cases "a = NL")
      case True
      then show ?thesis by (simp add: line_char_def date_end_def)
    next
      case False
      with np Cons.IH show ?thesis by (simp add: line_char_def)
    qed
  qed
qed

lemma datetime_at:
  "(date_at s = None \<and> rmatch datetime_re (s, None) = [])
   \<or> (\<exists>d t ms. date_at s = Some d \<and> rmatch datetime_re (s, None) = (t, Some d) # ms)"
proof -
  let ?G = "\<lambda>x. Some (take (length s - length x) s)"
  let ?h = "\<lambda>x. rmatch (Alt (Lit ''('') Eos) (x, ?G x)"
  from date_core_det have "length (rmatch date_core_re (s, None)) \<le> 1"
    by (simp add: det_def)
  then consider "rmatch date_core_re (s, None) = []"
    | c gc where "rmatch date_core_re (s, None) = [(c, gc)]"
    by (cases "rmatch date_core_re (s, None)") auto
  then show ?thesis
  proof cases
    case 1
    then have "rmatch datetime_re (s, None) = []" by (simp only: datetime_re_unfold) simp
    with 1 show ?thesis by (simp add: date_at_def)
  next
    case 2
    then have u: "rmatch datetime_re (s, None) = concat (map ?h (lazy_tails NotNL c))"
      by (simp only: datetime_re_unfold) simp
    show ?thesis
    proof (cases "date_end (dropWhile line_char c)")
      case True
      with lazy_scan [of c ?G] obtain t ms where
        "concat (map ?h (lazy_tails NotNL c)) = (t, ?G (dropWhile line_char c)) # ms" by blast
      with u have "rmatch datetime_re (s, None)
          = (t, Some (take (length s - length (dropWhile line_char c)) s)) # ms" by simp
      moreover from 2 True
      have "date_at s = Some (take (length s - length (dropWhile line_char c)) s)"
        by (simp add: date_at_def)
      ultimately show ?thesis by blast
    next
      case False
      with lazy_scan [of c ?G] have "concat (map ?h (lazy_tails NotNL c)) = []" by blast
      with u have "rmatch datetime_re (s, None) = []" by simp
      moreover from 2 False have "date_at s = None" by (simp add: date_at_def)
      ultimately show ?thesis by blast
    qed
  qed
qed

lemma search_first_date: "map_option group1 (search datetime_re s) = first_date s"
proof (induction s)
  case Nil
  from datetime_at [of "[]"] show ?case by (auto simp: group1_def)
next
  case (Cons c cs)
  from datetime_at [of "c # cs"] Cons.IH show ?case by (auto simp: group1_def)
qed

lemma find_date_time_spec: "find_date_time s = date_time_spec s"
proof -
  have "find_date_time s = (case map_option group1 (search datetime_re s) of
      None \<Rightarrow> [] | Some d \<Rightarrow> strip d)"
    by (simp add: find_date_time_def split: option.splits)
  then show ?thesis by (simp add: search_first_date date_time_spec_def)
qed


lemma first_date_here: "date_at s = Some d \<Longrightarrow> first_date s = Some d"
  by (cases s) simp_all

lemma first_date_skip:
  "\<forall>i<length pre. date_at (drop i (pre @ s)) = None \<Longrightarrow> first_date (pre @ s) = first_date s"
proof (induction pre)
  case Nil
  then show ?case by simp
next
  case (Cons c pre)
  from Cons.prems have h0: "date_at ((c # pre) @ s) = None"
    by (metis drop0 length_greater_0_conv list.distinct(1))
  have "\<forall>i<length pre. date_at (drop i (pre @ s)) = None"
  proof (intro allI impI)
    fix i assume "i < length pre"
    then have "Suc i < length (c # pre)" by simp
    with Cons.prems have "date_at (drop (Suc i) ((c # pre) @ s)) = None" by blast
    then show "date_at (drop i (pre @ s)) = None" by simp
  qed
  with Cons.IH have "first_date (pre @ s) = first_date s" .
  with h0 show ?case by simp
qed

text \<open>
  C6 (amended). The date_time field comes from a search over the whole page text alone
  and is the date and time of the first position of the text that has one: a position
  where the date and time pattern matches and is followed, after characters of the same
  line that are not "(", by a "(" or by the end of the text (a final newline aside). The
  field is the text from the start of the pattern up to there, trimmed, and it is empty
  when no position has a date and time. The pattern matches in at most one way at a
  position. So a pattern followed by "(" or by the end of the text is extracted when no
  earlier position has a date and time, and only the first match is kept.
\<close>

theorem date_time_first_match:
  "find_date_time txt = date_time_spec txt
   \<and> det date_core_re
   \<and> (parse txt n = Some r \<longrightarrow> date_time r = date_time_spec txt)
   \<and> (txt = pre @ u \<and> (\<forall>i<length pre. date_at (drop i txt) = None) \<and> date_at u = Some d
        \<longrightarrow> find_date_time txt = strip d)
   \<and> ((\<forall>i\<le>length txt. date_at (drop i txt) = None) \<longrightarrow> find_date_time txt = [])
   \<and> (search datetime_re txt = Some (s, t, g) \<longrightarrow>
        (\<exists>pre e dl rest. txt = pre @ s \<and> s = e @ dl @ rest \<and> g = Some (e @ dl)
           \<and> dl @ rest \<in> fst ` set (rmatch date_core_re (s, None))
           \<and> NL \<notin> set dl \<and> CHR ''('' \<notin> set (e @ dl)
           \<and> (rest = CHR ''('' # t \<or> (rest = [] \<or> rest = [NL]) \<and> t = rest)
           \<and> (\<forall>i<length pre. rmatch datetime_re (drop i txt, None) = [])
           \<and> find_date_time txt = strip (e @ dl)))"
proof -
  have 2: "date_time r = date_time_spec txt" if "parse txt n = Some r"
  proof -
    from that have "r = page_record txt n" by (auto simp: parse_eq split: if_splits)
    then show ?thesis by (simp add: page_record_date_time find_date_time_spec)
  qed
  have 3: "find_date_time txt = strip d"
    if "txt = pre @ u" "\<forall>i<length pre. date_at (drop i txt) = None" "date_at u = Some d"
  proof -
    from that(1,2) have "first_date txt = first_date u" by (simp add: first_date_skip)
    with that(3) have "first_date txt = Some d" by (simp add: first_date_here)
    then show ?thesis by (simp add: find_date_time_spec date_time_spec_def)
  qed
  have 4: "find_date_time txt = []" if a: "\<forall>i\<le>length txt. date_at (drop i txt) = None"
  proof -
    from a have "\<forall>i<length txt. date_at (drop i (txt @ [])) = None" by simp
    then have "first_date (txt @ []) = first_date []" by (rule first_date_skip)
    moreover from a have "date_at (drop (length txt) txt) = None" by blast
    ultimately have "first_date txt = None" by simp
    then show ?thesis by (simp add: find_date_time_spec date_time_spec_def)
  qed
  have 5: "\<exists>pre e dl rest. txt = pre @ s \<and> s = e @ dl @ rest \<and> g = Some (e @ dl)
           \<and> dl @ rest \<in> fst ` set (rmatch date_core_re (s, None))
           \<and> NL \<notin> set dl \<and> CHR ''('' \<notin> set (e @ dl)
           \<and> (rest = CHR ''('' # t \<or> (rest = [] \<or> rest = [NL]) \<and> t = rest)
           \<and> (\<forall>i<length pre. rmatch datetime_re (drop i txt, None) = [])
           \<and> find_date_time txt = strip (e @ dl)"
    if m: "search datetime_re txt = Some (s, t, g)"
  proof -
    from search_Some [OF m] obtain pre ms where
      p: "txt = pre @ s" "rmatch datetime_re (s, None) = (t, g) # ms"
      "\<forall>i<length pre. rmatch datetime_re (drop i txt, None) = []" by blast
    from datetime_rmatch [OF p(2)] obtain e dl rest where
      d: "s = e @ dl @ rest" "g = Some (e @ dl)"
      "dl @ rest \<in> fst ` set (rmatch date_core_re (s, None))"
      "NL \<notin> set dl" "CHR ''('' \<notin> set (e @ dl)"
      "rest = CHR ''('' # t \<or> (rest = [] \<or> rest = [NL]) \<and> t = rest" by blast
    from m d(2) have "find_date_time txt = strip (e @ dl)"
      by (simp add: find_date_time_def group1_def)
    with p(1,3) d show ?thesis by blast
  qed
  from find_date_time_spec date_core_det 2 3 4 5 show ?thesis by blast
qed


theorem date_time_first_match_witness:
  "search datetime_re
     (join_nl [''Contribution code: TUB003'', ''Monday, June 9, 2025 9:00 AM (30 min)'',
               ''Tuesday, June 10, 2025 10:30 AM (20 min)'', ''Niobium Thin Film Cavities''])
     = Some (join_nl [''Monday, June 9, 2025 9:00 AM (30 min)'',
                      ''Tuesday, June 10, 2025 10:30 AM (20 min)'', ''Niobium Thin Film Cavities''],
             join_nl [''30 min)'', ''Tuesday, June 10, 2025 10:30 AM (20 min)'',
                      ''Niobium Thin Film Cavities''],
             Some ''Monday, June 9, 2025 9:00 AM '')
   \<and> date_at (join_nl [''Monday, June 9, 2025 9:00 AM (30 min)'',
                     ''Tuesday, June 10, 2025 10:30 AM (20 min)'', ''Niobium Thin Film Cavities''])
     = Some ''Monday, June 9, 2025 9:00 AM ''
   \<and> list_all (\<lambda>i. date_at (drop i
          (join_nl [''Contribution code: TUB003'', ''Monday, June 9, 2025 9:00 AM (30 min)'',
             ''Tuesday, June 10, 2025 10:30 AM (20 min)'', ''Niobium Thin Film Cavities'']))
          = None) [0..<26]
   \<and> find_date_time
       (join_nl [''Contribution code: TUB003'', ''Monday, June 9, 2025 9:00 AM (30 min)'',
               ''Tuesday, June 10, 2025 10:30 AM (20 min)'', ''Niobium Thin Film Cavities''])
     = ''Monday, June 9, 2025 9:00 AM''
   \<and> map_option date_time
       (parse (join_nl [''Contribution code: TUB003'', ''Monday, June 9, 2025 9:00 AM (30 min)'',
               ''Tuesday, June 10, 2025 10:30 AM (20 min)'', ''Niobium Thin Film Cavities'']) 3)
     = Some ''Monday, June 9, 2025 9:00 AM''
   \<and> date_at ''Monday, June 9, 2025 9:00 AM'' = Some ''Monday, June 9, 2025 9:00 AM''
   \<and> find_date_time ''Monday, June 9, 2025 9:00 AM'' = ''Monday, June 9, 2025 9:00 AM''
   \<and> list_all (\<lambda>i. date_at (drop i
          (join_nl [''Monday, June 9, 2025 9:00 AM'', ''Niobium Thin Film Cavities''])) = None)
        [0..<56]
   \<and> find_date_time (join_nl [''Monday, June 9, 2025 9:00 AM'', ''Niobium Thin Film Cavities''])
     = []"
proof -
  define P where "P = ''Contribution code: TUB003'' @ [NL]"
  define S where "S = join_nl [''Monday, June 9, 2025 9:00 AM (30 min)'',
     ''Tuesday, June 10, 2025 10:30 AM (20 min)'', ''Niobium Thin Film Cavities'']"
  define T where "T = join_nl [''Contribution code: TUB003'',
     ''Monday, June 9, 2025 9:00 AM (30 min)'',
     ''Tuesday, June 10, 2025 10:30 AM (20 min)'', ''Niobium Thin Film Cavities'']"
  define E where "E = ''Monday, June 9, 2025 9:00 AM''"
  define D where "D = ''Monday, June 9, 2025 9:00 AM ''"
  define N where "N = join_nl [''Monday, June 9, 2025 9:00 AM'', ''Niobium Thin Film Cavities'']"
  define R where "R = join_nl [''30 min)'', ''Tuesday, June 10, 2025 10:30 AM (20 min)'',
     ''Niobium Thin Film Cavities'']"
  have ps: "T = P @ S" unfolding T_def P_def S_def by simp
  have m: "search datetime_re T = Some (S, R, Some D)"
    unfolding T_def S_def R_def D_def by code_simp
  have lp: "length P = 26" unfolding P_def by simp
  have ln: "length N = 55" unfolding N_def by simp
  have a: "date_at S = Some D" unfolding S_def D_def by code_simp
  have b: "list_all (\<lambda>i. date_at (drop i T) = None) [0..<26]" unfolding T_def by code_simp
  have st: "strip D = E" unfolding D_def E_def by code_simp
  have se: "strip E = E" unfolding E_def by code_simp
  have e: "date_at E = Some E" unfolding E_def by code_simp
  have c: "list_all (\<lambda>i. date_at (drop i N) = None) [0..<56]" unfolding N_def by code_simp
  have ti: "find_title T = ''Niobium Thin Film Cavities''" unfolding T_def by code_simp
  have co: "find_code T = ''TUB003''" unfolding T_def by code_simp
  from ti co have p: "parse T 3 = Some (page_record T 3)"
    by (simp add: parse_eq page_record_code page_record_title)
  from b lp have b': "\<forall>i<length P. date_at (drop i T) = None"
    by (simp add: list_all_iff)
  from c ln have c': "\<forall>i\<le>length N. date_at (drop i N) = None"
    by (simp add: list_all_iff less_Suc_eq_le [symmetric])
  have e0: "E = [] @ E" by simp
  have e': "\<forall>i<length ([] :: string). date_at (drop i E) = None" by simp
  from date_time_first_match [of T 3 "page_record T 3" P S D S R "Some D"] ps b' a
  have "find_date_time T = strip D" by blast
  from date_time_first_match [of T 3 "page_record T 3" P S D S R "Some D"] m
  obtain x dl where "Some D = Some (x @ dl)" "find_date_time T = strip (x @ dl)" by blast
  then have "find_date_time T = strip D" by simp
  with st have f: "find_date_time T = E" by simp
  from date_time_first_match [of T 3 "page_record T 3" "[]" "[]" "[]" "[]" "[]" None] p
  have "date_time (page_record T 3) = date_time_spec T" by blast
  moreover from date_time_first_match [of T 3 "page_record T 3" "[]" "[]" "[]" "[]" "[]" None]
  have "find_date_time T = date_time_spec T" by blast
  ultimately have "date_time (page_record T 3) = E" using f by simp
  with p have g: "map_option date_time (parse T 3) = Some E" by simp
  from date_time_first_match [of E 1 "page_record E 1" "[]" E E "[]" "[]" None] e0 e' e
  have "find_date_time E = strip E" by blast
  with se have h: "find_date_time E = E" by simp
  from date_time_first_match [of N 1 "page_record N 1" "[]" "[]" "[]" "[]" "[]" None] c'
  have k: "find_date_time N = []" by blast
  from m a b f g e h c k show ?thesis
    unfolding T_def S_def R_def E_def D_def N_def by blast
qed

text \<open>
  The claim as stated fails where a line break follows the date and time and no "(" does:
  the pattern occurs, the text to its end is what the wording gives, and the field is
  empty.
\<close>

theorem date_time_multiline_counterexample:
  "date_time_stated (join_nl [''Contribution code: TUB003'', ''Monday, June 9, 2025 9:00 AM'',
                             ''Niobium Thin Film Cavities''])
     = ''Monday, June 9, 2025 9:00 AM'' @ [NL] @ ''Niobium Thin Film Cavities''
   \<and> find_date_time (join_nl [''Contribution code: TUB003'', ''Monday, June 9, 2025 9:00 AM'',
                             ''Niobium Thin Film Cavities'']) = []
   \<and> map_option date_time
        (parse (join_nl [''Contribution code: TUB003'', ''Monday, June 9, 2025 9:00 AM'',
                         ''Niobium Thin Film Cavities'']) 2) = Some []"
  by code_simp

section \<open>Group 1 of the patterns\<close>

text \<open>
  Every match of the five patterns of the parser sets group 1, so \<open>m.group(1)\<close> is
  always a string there and the \<open>None\<close> case of \<open>group1\<close> does not arise.
\<close>

lemma rmatch_keeps_group:
  "g \<noteq> None \<Longrightarrow> (t, g') \<in> set (rmatch r (s, g)) \<Longrightarrow> g' \<noteq> None"
proof (induction r arbitrary: s g t g')
  case (Lit l)
  then show ?case by (auto split: if_splits)
next
  case (Cls k)
  then show ?case by (auto split: list.splits if_splits)
next
  case (Star k)
  then show ?case by auto
next
  case (Plus k)
  then show ?case by (auto split: list.splits if_splits)
next
  case (LazyStar k)
  then show ?case by auto
next
  case (Seq a b)
  from Seq.prems(2) obtain m gm where
    m: "(m, gm) \<in> set (rmatch a (s, g))" and t: "(t, g') \<in> set (rmatch b (m, gm))"
    by auto
  from Seq.IH(1) [OF Seq.prems(1) m] have "gm \<noteq> None" .
  from Seq.IH(2) [OF this t] show ?case .
next
  case (Alt a b)
  from Alt.prems(2) have "(t, g') \<in> set (rmatch a (s, g)) \<or> (t, g') \<in> set (rmatch b (s, g))"
    by simp
  with Alt.IH Alt.prems(1) show ?case by blast
next
  case (Group r)
  then show ?case by auto
next
  case Eos
  then show ?case by (auto split: if_splits)
next
  case (Lookahead r)
  from Lookahead.prems(2) have "g' = g" by (simp split: if_splits)
  with Lookahead.prems(1) show ?case by simp
qed

lemma rmatch_sets_group:
  "sets_group r \<Longrightarrow> (t, g') \<in> set (rmatch r (s, g)) \<Longrightarrow> g' \<noteq> None"
proof (induction r arbitrary: s g t g')
  case (Seq a b)
  from Seq.prems(2) obtain m gm where
    m: "(m, gm) \<in> set (rmatch a (s, g))" and t: "(t, g') \<in> set (rmatch b (m, gm))"
    by auto
  show ?case
  proof (cases "sets_group a")
    case True
    from Seq.IH(1) [OF True m] have "gm \<noteq> None" .
    from this t show ?thesis by (rule rmatch_keeps_group)
  next
    case False
    with Seq.prems(1) have "sets_group b" by simp
    from Seq.IH(2) [OF this t] show ?thesis .
  qed
next
  case (Alt a b)
  from Alt.prems(2) have "(t, g') \<in> set (rmatch a (s, g)) \<or> (t, g') \<in> set (rmatch b (s, g))"
    by simp
  with Alt.IH Alt.prems(1) show ?case by auto
next
  case (Group r)
  then show ?case by auto
qed simp_all

lemma search_group_defined:
  assumes "sets_group r" and "search r s = Some (u, t, g)"
  shows "g \<noteq> None"
proof -
  from search_Some [OF assms(2)] obtain ms where "rmatch r (u, None) = (t, g) # ms" by blast
  then have "(t, g) \<in> set (rmatch r (u, None))" by simp
  with assms(1) show ?thesis by (rule rmatch_sets_group)
qed

lemma patterns_set_group:
  "sets_group id_re" "sets_group code_re" "sets_group type_re" "sets_group datetime_re"
  "sets_group footnotes_re"
  by (simp_all add: id_re_def code_re_def type_re_def datetime_re_def footnotes_re_def)

section \<open>The worked example\<close>

text \<open>
  C5. The page text of the example, parsed as page 5, gives the record with
  contribution_id 42, contribution_code TUB003, session_code TUB, session
  "Tuesday Oral Session B", type "Oral Presentation", the title line as title, the
  sentence on cavity degradation as abstract, "Supported by Grant XYZ." as footnotes and
  page_number 5. (The date line is followed by further lines and by no parenthesis, so
  date_time stays empty.)
\<close>

theorem parse_example:
  "parse (join_nl [''Contribution ID: 42'', ''Contribution code: TUB003'',
        ''Type: Oral Presentation'', ''Tuesday, June 10, 2025 09:30 AM'',
        ''Superconducting Cavity Performance Improvements'',
        ''This work presents a detailed study of cavity quality factor degradation under high field operation conditions.'',
        ''Footnotes'', ''Supported by Grant XYZ.'']) 5
   = Some \<lparr>contribution_id = ''42'', contribution_code = ''TUB003'',
       type = ''Oral Presentation'',
       title = ''Superconducting Cavity Performance Improvements'',
       date_time = [],
       abstract = ''This work presents a detailed study of cavity quality factor degradation under high field operation conditions.'',
       footnotes = ''Supported by Grant XYZ.'',
       session = ''Tuesday Oral Session B'', session_code = ''TUB'',
       page_number = 5\<rparr>"
  by code_simp

end
